theory Spec2Isabelle
  imports Complex_Main "HOL-Library.Word"
begin

unbundle bit_operations_syntax

section \<open>Coordinates and machine integers\<close>

text \<open>
  The class template \<^verbatim>\<open>Octree<PosType, DataType, DIM>\<close> of \<^verbatim>\<open>octree.h\<close> is
  parametric in the coordinate vector \<^verbatim>\<open>PosType\<close>. The vector type itself comes from a
  library outside the repository; the tree uses only component access \<^verbatim>\<open>p[i]\<close>,
  component-wise \<^verbatim>\<open>+\<close> and \<^verbatim>\<open>-\<close>, and division by an \<^verbatim>\<open>int\<close>. A vector is modelled as
  the list of its components over an ordered field, with exactly these operations; the
  arithmetic is exact, so rounding in a floating-point instance is outside the model. The
  vector type of an instance has \<^verbatim>\<open>DIM\<close> components, so every \<^verbatim>\<open>p[i]\<close> of the code is in
  range; where a property depends on the number of components, it says so.
\<close>

definition vsub :: "'a::linordered_field list \<Rightarrow> 'a list \<Rightarrow> 'a list" where
  "vsub a b = map2 (-) a b"

definition vadd :: "'a::linordered_field list \<Rightarrow> 'a list \<Rightarrow> 'a list" where
  "vadd a b = map2 (+) a b"

definition vdiv :: "'a::linordered_field list \<Rightarrow> int \<Rightarrow> 'a list" where
  "vdiv a k = map (\<lambda>x. x / of_int k) a"

text \<open>
  The expression \<^verbatim>\<open>1 << n\<close> of the source has type \<^verbatim>\<open>int\<close> (32 bits), whatever the type
  of \<^verbatim>\<open>n\<close>. It is \<open>2 ^ n\<close> for \<open>n < 31\<close> and the most negative \<^verbatim>\<open>int\<close> for \<open>n = 31\<close>.
  For \<open>n \<ge> 32\<close> C++ leaves the shift undefined; the value a platform then produces is
  the parameter \<open>wide\<close>, about which nothing is assumed.
\<close>

definition shl1 :: "(nat \<Rightarrow> int) \<Rightarrow> nat \<Rightarrow> int" where
  "shl1 wide n = (if n < 32 then sint (push_bit n (1 :: 32 word)) else wide n)"

section \<open>Data model\<close>

text \<open>
  \<^verbatim>\<open>struct Node\<close>: centre, accumulated data, depth and the array of \<^verbatim>\<open>child_num_\<close> child
  pointers, a null pointer being \<open>None\<close>. Depths are \<^verbatim>\<open>size_t\<close>; a stored node's depth
  is far below the wrap-around of \<^verbatim>\<open>size_t\<close>, so depths are natural numbers.
\<close>

datatype ('a, 'd) node =
  Node (center: "'a list") (data: 'd) (depth: nat) (childs: "('a, 'd) node option list")

text \<open>\<^verbatim>\<open>struct Boundary\<close> with its members \<^verbatim>\<open>size()\<close>, \<^verbatim>\<open>center()\<close> and \<^verbatim>\<open>is_in(pos)\<close>.\<close>

record 'a boundary =
  min_pt :: "'a list"
  max_pt :: "'a list"

definition size_b :: "'a::linordered_field boundary \<Rightarrow> 'a list" where
  "size_b b = vsub (max_pt b) (min_pt b)"

definition center_b :: "'a::linordered_field boundary \<Rightarrow> 'a list" where
  "center_b b = vdiv (vadd (max_pt b) (min_pt b)) 2"

definition is_in :: "nat \<Rightarrow> 'a::linordered_field boundary \<Rightarrow> 'a list \<Rightarrow> bool" where
  "is_in dm b pos =
     list_all (\<lambda>i. \<not> (pos ! i < min_pt b ! i \<or> pos ! i > max_pt b ! i)) [0..<dm]"

text \<open>
  The members of \<^verbatim>\<open>class Octree\<close>, together with the template constant \<^verbatim>\<open>DIM\<close>.
  \<^verbatim>\<open>child_num_ = 1 << DIM\<close> is a compile-time constant that sizes the child array, so
  every instance that compiles has \<open>DIM \<le> 30\<close> and the shift is \<open>2 ^ DIM\<close>.
\<close>

record ('a, 'd) octree =
  DIM :: nat
  boundary :: "'a boundary"
  max_depth :: nat
  root_node :: "('a, 'd) node"

definition child_num :: "nat \<Rightarrow> nat" where
  "child_num dm = 2 ^ dm"

text \<open>
  The constructor \<^verbatim>\<open>Octree(min, max, depth)\<close>. \<open>d0\<close> is the value-initialised
  \<^verbatim>\<open>DataType()\<close>.
\<close>

definition Octree :: "'d \<Rightarrow> nat \<Rightarrow> 'a::linordered_field list \<Rightarrow> 'a list \<Rightarrow> nat \<Rightarrow> ('a, 'd) octree" where
  "Octree d0 dm mn mx dep =
     \<lparr>DIM = dm, boundary = \<lparr>min_pt = mn, max_pt = mx\<rparr>, max_depth = dep,
      root_node = Node (center_b \<lparr>min_pt = mn, max_pt = mx\<rparr>) d0 0 (replicate (child_num dm) None)\<rparr>"

section \<open>Operations\<close>

text \<open>\<^verbatim>\<open>find_index\<close>: the loop over the axes sets bit \<open>i\<close> when \<^verbatim>\<open>pos[i] > node->center[i]\<close>.\<close>

definition find_index :: "('a::linordered_field, 'd) octree \<Rightarrow> 'a list \<Rightarrow> ('a, 'd) node \<Rightarrow> nat" where
  "find_index t pos node =
     fold (\<lambda>i index. if pos ! i > center node ! i then index OR push_bit i 1 else index)
       [0..<DIM t] 0"

text \<open>\<^verbatim>\<open>find_center\<close>: the centre of the child cell that \<open>pos\<close> falls into.\<close>

definition find_center ::
  "(nat \<Rightarrow> int) \<Rightarrow> ('a::linordered_field, 'd) octree \<Rightarrow> 'a list \<Rightarrow> ('a, 'd) node \<Rightarrow> 'a list" where
  "find_center wide t pos node =
     (let half_size = vdiv (size_b (boundary t)) (shl1 wide (depth node + 2))
      in fold (\<lambda>i c. c[i := (if pos ! i > center node ! i
                               then c ! i + half_size ! i else c ! i - half_size ! i)])
           [0..<DIM t] (center node))"

text \<open>
  Reading slot \<open>i\<close> of the child array. The array has \<^verbatim>\<open>child_num_\<close> slots and every index
  the code computes is below that; a list of another length does not arise from the code, and
  a slot beyond it reads as a null pointer.
\<close>

definition child :: "('a, 'd) node \<Rightarrow> nat \<Rightarrow> ('a, 'd) node option" where
  "child node i = (if i < length (childs node) then childs node ! i else None)"

text \<open>\<^verbatim>\<open>update\<close>, the virtual aggregation hook with its default body.\<close>

definition update :: "'d::plus \<Rightarrow> 'd \<Rightarrow> 'd" where
  "update old_data new_data = new_data + old_data"

text \<open>
  The recursive \<^verbatim>\<open>insert(node, pos, data)\<close> mutates the tree in place; the model returns
  the node as it is after the call. The recursion ends only when a node with
  \<^verbatim>\<open>depth + 1 == max_depth_\<close> is met, so the model carries a budget of nested calls: with the
  budget used up the call has not returned, and the result is the node as built so far,
  marked \<open>OutOfFuel\<close>. \<open>upd\<close> is the \<^verbatim>\<open>update\<close> in force (the method is virtual).
\<close>

datatype outcome = Done | OutOfFuel

fun insert_node ::
  "('d \<Rightarrow> 'd \<Rightarrow> 'd) \<Rightarrow> (nat \<Rightarrow> int) \<Rightarrow> ('a::linordered_field, 'd) octree \<Rightarrow> nat \<Rightarrow>
   ('a, 'd) node \<Rightarrow> 'a list \<Rightarrow> 'd \<Rightarrow> ('a, 'd) node \<times> outcome" where
  "insert_node upd wide t 0 node pos dat = (node, OutOfFuel)"
| "insert_node upd wide t (Suc fuel) node pos dat =
     (if depth node + 1 = max_depth t then (node, Done)
      else
        let index = find_index t pos node;
            c = (case child node index of
                   None \<Rightarrow> Node (find_center wide t pos node) dat (depth node + 1)
                             (replicate (child_num (DIM t)) None)
                 | Some old \<Rightarrow> Node (center old) (upd (data old) dat) (depth old) (childs old));
            (c', res) = insert_node upd wide t fuel c pos dat
        in (Node (center node) (data node) (depth node) ((childs node)[index := Some c']), res))"

text \<open>The public \<^verbatim>\<open>insert(pos, data)\<close>: positions outside the boundary are dropped.\<close>

definition insert_pos ::
  "('d \<Rightarrow> 'd \<Rightarrow> 'd) \<Rightarrow> (nat \<Rightarrow> int) \<Rightarrow> nat \<Rightarrow> ('a::linordered_field, 'd) octree \<Rightarrow>
   'a list \<Rightarrow> 'd \<Rightarrow> ('a, 'd) octree \<times> outcome" where
  "insert_pos upd wide fuel t pos dat =
     (if \<not> is_in (DIM t) (boundary t) pos then (t, Done)
      else let (r, res) = insert_node upd wide t fuel (root_node t) pos dat
           in (t\<lparr>root_node := r\<rparr>, res))"

text \<open>The recursive \<^verbatim>\<open>find(node, pos, depth)\<close> and the two public overloads.\<close>

function find_node ::
  "('a::linordered_field, 'd) octree \<Rightarrow> ('a, 'd) node \<Rightarrow> 'a list \<Rightarrow> nat \<Rightarrow> ('a, 'd) node" where
  "find_node t node pos dep =
     (if depth node = dep then node
      else case child node (find_index t pos node) of
             None \<Rightarrow> node
           | Some c \<Rightarrow> find_node t c pos dep)"
  by pat_completeness auto
termination
proof (relation "measure (\<lambda>(t, node, pos, dep). size node)")
  fix t :: "('a, 'd) octree" and node c :: "('a, 'd) node" and pos :: "'a list" and dep :: nat
  assume "child node (find_index t pos node) = Some c"
  then have "Some c \<in> set (childs node)"
    by (auto simp: child_def split: if_splits dest: nth_mem)
  then have "size_option size (Some c) \<le> size_list (size_option size) (childs node)"
    by (rule size_list_estimation') simp
  then have "size c < size node"
    by (cases node) simp
  then show "((t, c, pos, dep), (t, node, pos, dep)) \<in> measure (\<lambda>(t, node, pos, dep). size node)"
    by simp
qed simp

declare find_node.simps [simp del]

definition find_pos_depth ::
  "('a::linordered_field, 'd) octree \<Rightarrow> 'a list \<Rightarrow> nat \<Rightarrow> ('a, 'd) node" where
  "find_pos_depth t pos dep = find_node t (root_node t) pos dep"

definition find_pos :: "('a::linordered_field, 'd) octree \<Rightarrow> 'a list \<Rightarrow> ('a, 'd) node" where
  "find_pos t pos = find_pos_depth t pos (max_depth t)"

text \<open>\<^verbatim>\<open>find_boundary\<close>: the region of a node, written to the out-parameter.\<close>

definition find_boundary ::
  "(nat \<Rightarrow> int) \<Rightarrow> ('a::linordered_field, 'd) octree \<Rightarrow> ('a, 'd) node \<Rightarrow> 'a boundary" where
  "find_boundary wide t node =
     (let half_size = vdiv (size_b (boundary t)) (shl1 wide (depth node + 1))
      in \<lparr>min_pt = vsub (center node) half_size, max_pt = vadd (center node) half_size\<rparr>)"

text \<open>
  \<^verbatim>\<open>traverse\<close> calls the visitor on the node and then on each present child in index
  order; the model returns the nodes in the order in which the visitor receives them, and
  \<^verbatim>\<open>visual\<close> starts at the root. What the visitor does with a node is the caller's
  business and not part of the model.
\<close>

function traverse :: "('a, 'd) node \<Rightarrow> ('a, 'd) node list" where
  "traverse node =
     node # concat (map (\<lambda>i. case child node i of None \<Rightarrow> [] | Some c \<Rightarrow> traverse c)
                      [0..<length (childs node)])"
  by pat_completeness auto
termination
proof (relation "measure size")
  fix node c :: "('a, 'd) node" and i :: nat
  assume "child node i = Some c"
  then have "Some c \<in> set (childs node)"
    by (auto simp: child_def split: if_splits dest: nth_mem)
  then have "size_option size (Some c) \<le> size_list (size_option size) (childs node)"
    by (rule size_list_estimation') simp
  then have "size c < size node"
    by (cases node) simp
  then show "(c, node) \<in> measure size"
    by simp
qed simp

declare traverse.simps [simp del]

definition visual :: "('a, 'd) octree \<Rightarrow> ('a, 'd) node list" where
  "visual t = traverse (root_node t)"

section \<open>Trees built through the interface\<close>

text \<open>
  The shape every node of a tree keeps, for a node expected at depth \<open>k\<close>: its depth field
  is \<open>k\<close>, its child array has \<^verbatim>\<open>child_num_\<close> slots, it lies above the depth limit when the
  limit is positive, and every child is one level deeper and of the same shape; a node one
  level above the limit has no child.
\<close>

function node_inv :: "nat \<Rightarrow> nat \<Rightarrow> nat \<Rightarrow> ('a, 'd) node \<Rightarrow> bool" where
  "node_inv dm md k node =
     (depth node = k \<and> length (childs node) = child_num dm \<and> (0 < md \<longrightarrow> k < md) \<and>
      list_all (\<lambda>i. case child node i of None \<Rightarrow> True
                    | Some c \<Rightarrow> k + 1 \<noteq> md \<and> node_inv dm md (k + 1) c)
        [0..<length (childs node)])"
  by pat_completeness auto
termination
proof (relation "measure (\<lambda>(dm, md, k, node). size node)")
  fix dm md k :: nat and node c :: "('a, 'd) node" and i :: nat
  assume "child node i = Some c"
  then have "Some c \<in> set (childs node)"
    by (auto simp: child_def split: if_splits dest: nth_mem)
  then have "size_option size (Some c) \<le> size_list (size_option size) (childs node)"
    by (rule size_list_estimation') simp
  then have "size c < size node"
    by (cases node) simp
  then show "((dm, md, k + 1, c), (dm, md, k, node)) \<in> measure (\<lambda>(dm, md, k, node). size node)"
    by simp
qed simp

declare node_inv.simps [simp del]

text \<open>
  The trees a program can hold: the constructor's result, and the tree after any further
  call of \<^verbatim>\<open>insert\<close>, whatever the budget of that call and whether it returned or not.
\<close>

inductive reachable ::
  "('d \<Rightarrow> 'd \<Rightarrow> 'd) \<Rightarrow> (nat \<Rightarrow> int) \<Rightarrow> ('a::linordered_field, 'd) octree \<Rightarrow> bool"
  for upd :: "'d \<Rightarrow> 'd \<Rightarrow> 'd" and wide :: "nat \<Rightarrow> int" where
  constructed: "reachable upd wide (Octree d0 dm mn mx dep)"
| inserted: "reachable upd wide t \<Longrightarrow> reachable upd wide (fst (insert_pos upd wide fuel t pos dat))"

section \<open>Recursion depth\<close>

text \<open>
  \<^verbatim>\<open>find\<close> and \<^verbatim>\<open>traverse\<close> recur along the tree, so they end on every tree; the versions
  below carry the same budget of nested calls as \<open>insert_node\<close> and yield \<open>None\<close> when
  it is used up, which measures how deep the recursion goes.
\<close>

fun find_node_fuel ::
  "nat \<Rightarrow> ('a::linordered_field, 'd) octree \<Rightarrow> ('a, 'd) node \<Rightarrow> 'a list \<Rightarrow> nat \<Rightarrow> ('a, 'd) node option" where
  "find_node_fuel 0 t node pos dep = None"
| "find_node_fuel (Suc fuel) t node pos dep =
     (if depth node = dep then Some node
      else case child node (find_index t pos node) of
             None \<Rightarrow> Some node
           | Some c \<Rightarrow> find_node_fuel fuel t c pos dep)"

fun traverse_fuel :: "nat \<Rightarrow> ('a, 'd) node \<Rightarrow> ('a, 'd) node list option" where
  "traverse_fuel 0 node = None"
| "traverse_fuel (Suc fuel) node =
     map_option (\<lambda>rs. node # concat rs)
       (those (map (\<lambda>i. case child node i of None \<Rightarrow> Some [] | Some c \<Rightarrow> traverse_fuel fuel c)
                 [0..<length (childs node)]))"

section \<open>The path of a position\<close>

text \<open>
  The nodes that exist along the quadrant-index path of a position, from a node downwards:
  the node itself, then the child its index selects, and so on until that child is absent.
\<close>

function descent ::
  "('a::linordered_field, 'd) octree \<Rightarrow> ('a, 'd) node \<Rightarrow> 'a list \<Rightarrow> ('a, 'd) node list" where
  "descent t node pos =
     node # (case child node (find_index t pos node) of
               None \<Rightarrow> []
             | Some c \<Rightarrow> descent t c pos)"
  by pat_completeness auto
termination
proof (relation "measure (\<lambda>(t, node, pos). size node)")
  fix t :: "('a, 'd) octree" and node c :: "('a, 'd) node" and pos :: "'a list"
  assume "child node (find_index t pos node) = Some c"
  then have "Some c \<in> set (childs node)"
    by (auto simp: child_def split: if_splits dest: nth_mem)
  then have "size_option size (Some c) \<le> size_list (size_option size) (childs node)"
    by (rule size_list_estimation') simp
  then have "size c < size node"
    by (cases node) simp
  then show "((t, c, pos), (t, node, pos)) \<in> measure (\<lambda>(t, node, pos). size node)"
    by simp
qed simp

declare descent.simps [simp del]

section \<open>Paths and sequences of insertions\<close>

text \<open>
  The child indices that a position selects level by level, \<open>n\<close> levels down from a node,
  each next centre being the one \<^verbatim>\<open>find_center\<close> computes; \<open>leaf_path\<close> is the whole path
  from the root to the deepest level that \<^verbatim>\<open>insert\<close> fills.
\<close>

fun route ::
  "(nat \<Rightarrow> int) \<Rightarrow> ('a::linordered_field, 'd) octree \<Rightarrow> nat \<Rightarrow> ('a, 'd) node \<Rightarrow> 'a list \<Rightarrow> nat list" where
  "route wide t 0 node pos = []"
| "route wide t (Suc n) node pos =
     find_index t pos node #
     route wide t n (Node (find_center wide t pos node) (data node) (depth node + 1) []) pos"


text \<open>
  The \<open>n\<close> nodes below a node on the path of a position all exist, at the centres and depths
  that \<^verbatim>\<open>insert\<close> gives them, and all hold the data \<open>w\<close>.
\<close>

fun on_path ::
  "(nat \<Rightarrow> int) \<Rightarrow> ('a::linordered_field, 'd) octree \<Rightarrow> nat \<Rightarrow> ('a, 'd) node \<Rightarrow> 'a list \<Rightarrow> 'd \<Rightarrow> bool" where
  "on_path wide t 0 node pos w = True"
| "on_path wide t (Suc n) node pos w =
     (case child node (find_index t pos node) of
        None \<Rightarrow> False
      | Some c \<Rightarrow> center c = find_center wide t pos node \<and> depth c = depth node + 1 \<and>
                 data c = w \<and> length (childs c) = child_num (DIM t) \<and> on_path wide t n c pos w)"


section \<open>Regions\<close>

text \<open>
  The region of a node as the specification states it, with the half size
  \<open>boundary.size / 2 ^ (depth + 1)\<close> computed without a machine shift; it is what
  \<^verbatim>\<open>find_boundary\<close> is compared with.
\<close>

definition region_spec :: "('a::linordered_field, 'd) octree \<Rightarrow> ('a, 'd) node \<Rightarrow> 'a boundary" where
  "region_spec t node =
     (let h = map (\<lambda>x. x / 2 ^ (depth node + 1)) (size_b (boundary t))
      in \<lparr>min_pt = vsub (center node) h, max_pt = vadd (center node) h\<rparr>)"

text \<open>
  The corners of the boundary have \<^verbatim>\<open>DIM\<close> components, as the vector type of an instance
  has.
\<close>

definition sized :: "('a::linordered_field, 'd) octree \<Rightarrow> bool" where
  "sized t \<longleftrightarrow> length (min_pt (boundary t)) = DIM t \<and> length (max_pt (boundary t)) = DIM t"

text \<open>
  Where the nodes of a tree lie: every centre has \<^verbatim>\<open>DIM\<close> components, and a child in slot
  \<open>i\<close> is one level below its parent, at the centre that \<^verbatim>\<open>find_center\<close> computes for
  the positions of index \<open>i\<close>.
\<close>

function node_geo ::
  "(nat \<Rightarrow> int) \<Rightarrow> ('a::linordered_field, 'd) octree \<Rightarrow> ('a, 'd) node \<Rightarrow> bool" where
  "node_geo wide t node =
     (length (center node) = DIM t \<and>
      list_all (\<lambda>i. case child node i of None \<Rightarrow> True
                    | Some c \<Rightarrow> (\<exists>q. find_index t q node = i \<and> center c = find_center wide t q node) \<and>
                               depth c = depth node + 1 \<and> node_geo wide t c)
        [0..<length (childs node)])"
  by pat_completeness auto
termination
proof (relation "measure (\<lambda>(wide, t, node). size node)")
  fix wide :: "nat \<Rightarrow> int" and t :: "('a, 'd) octree" and node c :: "('a, 'd) node" and i :: nat
  assume "child node i = Some c"
  then have "Some c \<in> set (childs node)"
    by (auto simp: child_def split: if_splits dest: nth_mem)
  then have "size_option size (Some c) \<le> size_list (size_option size) (childs node)"
    by (rule size_list_estimation') simp
  then have "size c < size node"
    by (cases node) simp
  then show "((wide, t, c), (wide, t, node)) \<in> measure (\<lambda>(wide, t, node). size node)"
    by simp
qed simp

declare node_geo.simps [simp del]

section \<open>Inputs of the examples\<close>

text \<open>
  The quadtree of the repository's test, over the square from \<open>(0, 0)\<close> to \<open>(100, 100)\<close>
  with integer data counted from zero, here with any depth limit (the test uses 4); and one
  choice for the value of the shifts that C++ leaves undefined.
\<close>

definition quad :: "nat \<Rightarrow> (rat, int) octree" where
  "quad dep = Octree 0 2 [0, 0] [100, 100] dep"

definition wide0 :: "nat \<Rightarrow> int" where
  "wide0 n = 0"

text \<open>The test's tree after one insertion of the value 1 at \<open>(25, 25)\<close>.\<close>

definition sample :: "(rat, int) octree" where
  "sample = fst (insert_pos update wide0 4 (quad 4) [25, 25] 1)"

text \<open>
  The test's tree built with a depth limit of 31 instead of 4, after one insertion at
  \<open>(25, 25)\<close>: its deepest node has depth 30.
\<close>

definition deep :: "(rat, int) octree" where
  "deep = fst (insert_pos update wide0 31 (quad 31) [25, 25] 1)"

text \<open>
  The same tree with a depth limit of 31 after one insertion at the position
  \<open>(100 / 2 ^ 30, 100 / 2 ^ 30)\<close>, which is the centre of the node of depth 29 on its own
  path.
\<close>

definition tie_pos :: "rat list" where
  "tie_pos = [25 / 268435456, 25 / 268435456]"

definition tied :: "(rat, int) octree" where
  "tied = fst (insert_pos update wide0 31 (quad 31) tie_pos 1)"

section \<open>The examples, evaluated\<close>

lemma sample_value:
  "sample = \<lparr>DIM = 2, boundary = \<lparr>min_pt = [0, 0], max_pt = [100, 100]\<rparr>, max_depth = 4,
     root_node =
       Node [50, 50] 0 0
        [Some (Node [25, 25] 1 1
            [Some (Node [25 / 2, 25 / 2] 1 2
                [None, None, None, Some (Node [75 / 4, 75 / 4] 1 3 [None, None, None, None])]),
             None, None, None]),
         None, None, None]\<rparr>"
  by code_simp

lemma insert_pos_params [simp]:
  "DIM (fst (insert_pos upd wide fuel t pos dat)) = DIM t"
  "boundary (fst (insert_pos upd wide fuel t pos dat)) = boundary t"
  "max_depth (fst (insert_pos upd wide fuel t pos dat)) = max_depth t"
  by (simp_all add: insert_pos_def case_prod_beta)

section \<open>The quadrant index\<close>

lemma bit_fold_index:
  "bit (fold (\<lambda>i index. if P i then index OR push_bit i 1 else index) [0..<n] (0::nat)) j
     \<longleftrightarrow> j < n \<and> P j"
  by (induction n) (auto simp: bit_or_iff bit_push_bit_iff bit_1_iff bit_exp_iff less_Suc_eq)

lemma bit_find_index:
  "bit (find_index t pos node) j \<longleftrightarrow> j < DIM t \<and> pos ! j > center node ! j"
  unfolding find_index_def by (rule bit_fold_index)

lemma find_index_less: "find_index t pos node < 2 ^ DIM t"
proof -
  have "take_bit (DIM t) (find_index t pos node) = find_index t pos node"
    by (rule bit_eqI) (auto simp: bit_take_bit_iff bit_find_index)
  then show ?thesis
    by (simp add: take_bit_nat_eq_self_iff)
qed

lemma child_insert_node_other:
  "depth node + 1 \<noteq> max_depth t \<Longrightarrow> i \<noteq> find_index t pos node \<Longrightarrow>
   child (fst (insert_node upd wide t (Suc fuel) node pos dat)) i = child node i"
  by (simp add: Let_def child_def split: prod.splits)

lemma child_insert_node_same:
  "depth node + 1 \<noteq> max_depth t \<Longrightarrow> find_index t pos node < length (childs node) \<Longrightarrow>
   child (fst (insert_node upd wide t (Suc fuel) node pos dat)) (find_index t pos node) \<noteq> None"
  by (simp add: Let_def child_def split: prod.splits)

text \<open>
  The index that routes a position at a node is below \<open>2 ^ DIM\<close>, and its bit
  \<open>i\<close> is set exactly when \<open>i\<close> is an axis and \<^verbatim>\<open>pos[i] > node->center[i]\<close>; on a tie the
  bit is unset.
  \<^verbatim>\<open>find\<close> descends into the child with that index, and \<^verbatim>\<open>insert\<close> fills that child slot
  and leaves every other slot as it was. Where the child of that slot lies is the subject of
  the last section.
\<close>

theorem find_index_bits:
  "find_index t pos node < 2 ^ DIM t \<and>
   (\<forall>i. bit (find_index t pos node) i \<longleftrightarrow> i < DIM t \<and> pos ! i > center node ! i) \<and>
   (\<forall>i. i < DIM t \<longrightarrow> pos ! i = center node ! i \<longrightarrow> \<not> bit (find_index t pos node) i) \<and>
   (depth node \<noteq> dep \<longrightarrow>
      find_node t node pos dep =
        (case child node (find_index t pos node) of None \<Rightarrow> node | Some c \<Rightarrow> find_node t c pos dep)) \<and>
   (depth node + 1 \<noteq> max_depth t \<longrightarrow>
      (\<forall>i. i \<noteq> find_index t pos node \<longrightarrow>
         child (fst (insert_node upd wide t (Suc fuel) node pos dat)) i = child node i) \<and>
      (find_index t pos node < length (childs node) \<longrightarrow>
         child (fst (insert_node upd wide t (Suc fuel) node pos dat)) (find_index t pos node) \<noteq> None))"
proof (intro conjI allI impI)
  show "find_index t pos node < 2 ^ DIM t" by (rule find_index_less)
next
  fix i
  show "bit (find_index t pos node) i \<longleftrightarrow> i < DIM t \<and> pos ! i > center node ! i"
    by (rule bit_find_index)
next
  fix i assume "i < DIM t" "pos ! i = center node ! i"
  then show "\<not> bit (find_index t pos node) i"
    by (simp add: bit_find_index)
next
  assume "depth node \<noteq> dep"
  then show "find_node t node pos dep =
        (case child node (find_index t pos node) of None \<Rightarrow> node | Some c \<Rightarrow> find_node t c pos dep)"
    by (subst find_node.simps) simp
next
  fix i assume "depth node + 1 \<noteq> max_depth t" "i \<noteq> find_index t pos node"
  then show "child (fst (insert_node upd wide t (Suc fuel) node pos dat)) i = child node i"
    by (rule child_insert_node_other)
next
  assume "depth node + 1 \<noteq> max_depth t" "find_index t pos node < length (childs node)"
  then show "child (fst (insert_node upd wide t (Suc fuel) node pos dat)) (find_index t pos node) \<noteq> None"
    by (rule child_insert_node_same)
qed

theorem find_index_bits_witness:
  "find_index (Octree (0::int) 2 [0, 0] [100, 100::rat] 4) [50, 60]
     (root_node (Octree (0::int) 2 [0, 0] [100, 100::rat] 4)) = 2 \<and>
   (0::nat) < DIM (Octree (0::int) 2 [0, 0] [100, 100::rat] 4) \<and>
   [50, 60::rat] ! 0 = center (root_node (Octree (0::int) 2 [0, 0] [100, 100::rat] 4)) ! 0 \<and>
   \<not> bit (find_index (Octree (0::int) 2 [0, 0] [100, 100::rat] 4) [50, 60]
     (root_node (Octree (0::int) 2 [0, 0] [100, 100::rat] 4))) 0 \<and>
   depth (root_node (Octree (0::int) 2 [0, 0] [100, 100::rat] 4)) + 1 \<noteq>
     max_depth (Octree (0::int) 2 [0, 0] [100, 100::rat] 4) \<and>
   find_index (Octree (0::int) 2 [0, 0] [100, 100::rat] 4) [50, 60]
     (root_node (Octree (0::int) 2 [0, 0] [100, 100::rat] 4))
     < length (childs (root_node (Octree (0::int) 2 [0, 0] [100, 100::rat] 4))) \<and>
   child (fst (insert_node update (\<lambda>n. 0) (Octree (0::int) 2 [0, 0] [100, 100::rat] 4) (Suc 3)
     (root_node (Octree (0::int) 2 [0, 0] [100, 100::rat] 4)) [50, 60] 1))
     (find_index (Octree (0::int) 2 [0, 0] [100, 100::rat] 4) [50, 60]
       (root_node (Octree (0::int) 2 [0, 0] [100, 100::rat] 4))) \<noteq> None"
proof -
  let ?t = "Octree (0::int) 2 [0, 0] [100, 100::rat] 4"
  note inst = find_index_bits [of ?t "[50, 60]" "root_node ?t" 1 update "\<lambda>n. 0" 3 1]
  have e: "find_index ?t [50, 60] (root_node ?t) = 2"
    by code_simp
  have d: "(0::nat) < DIM ?t"
    by (simp add: Octree_def)
  have c: "[50, 60::rat] ! 0 = center (root_node ?t) ! 0"
    by (simp add: Octree_def center_b_def vdiv_def vadd_def)
  have g: "depth (root_node ?t) + 1 \<noteq> max_depth ?t"
    by (simp add: Octree_def)
  have l: "find_index ?t [50, 60] (root_node ?t) < length (childs (root_node ?t))"
    unfolding e by (simp add: Octree_def child_num_def)
  from inst d c have b: "\<not> bit (find_index ?t [50, 60] (root_node ?t)) 0"
    by blast
  from inst g l have i: "child (fst (insert_node update (\<lambda>n. 0) ?t (Suc 3) (root_node ?t) [50, 60] 1))
     (find_index ?t [50, 60] (root_node ?t)) \<noteq> None"
    by blast
  from e d c b g l i show ?thesis
    by blast
qed

section \<open>Positions outside the boundary\<close>

text \<open>
  Claim C2. A position with a coordinate below the boundary minimum or above the boundary
  maximum is dropped by \<^verbatim>\<open>insert\<close>: the call returns normally, without a recursive call, and
  the tree (root, nodes, centres, data, depths, children) is the one it was given.
\<close>

theorem insert_out_of_bounds:
  assumes "i < DIM t"
    and "pos ! i < min_pt (boundary t) ! i \<or> pos ! i > max_pt (boundary t) ! i"
  shows "insert_pos upd wide fuel t pos dat = (t, Done)"
proof -
  have "i \<in> set [0..<DIM t]"
    using assms(1) by simp
  with assms(2) have "\<not> is_in (DIM t) (boundary t) pos"
    unfolding is_in_def list_all_iff by blast
  then show ?thesis
    by (simp add: insert_pos_def)
qed

theorem insert_out_of_bounds_witness:
  "(0::nat) < DIM (Octree (0::int) 2 [0, 0] [100, 100::rat] 4) \<and>
   [150, 150::rat] ! 0 > max_pt (boundary (Octree (0::int) 2 [0, 0] [100, 100::rat] 4)) ! 0 \<and>
   insert_pos update (\<lambda>n. 0) 4 (Octree (0::int) 2 [0, 0] [100, 100::rat] 4) [150, 150] 1
     = (Octree (0::int) 2 [0, 0] [100, 100::rat] 4, Done)"
proof -
  have h1: "(0::nat) < DIM (Octree (0::int) 2 [0, 0] [100, 100::rat] 4)"
    by (simp add: Octree_def)
  have h2: "[150, 150::rat] ! 0 > max_pt (boundary (Octree (0::int) 2 [0, 0] [100, 100::rat] 4)) ! 0"
    by (simp add: Octree_def)
  from h1 h2 insert_out_of_bounds [OF h1 disjI2 [OF h2], of update "\<lambda>n. 0" 4 1]
  show ?thesis by simp
qed

section \<open>The shape of reachable trees\<close>

lemma child_None_beyond: "length (childs node) \<le> i \<Longrightarrow> child node i = None"
  by (simp add: child_def)

lemma node_inv_iff:
  "node_inv dm md k node \<longleftrightarrow>
     depth node = k \<and> length (childs node) = child_num dm \<and> (0 < md \<longrightarrow> k < md) \<and>
     (\<forall>i c. child node i = Some c \<longrightarrow> k + 1 \<noteq> md \<and> node_inv dm md (k + 1) c)"
proof -
  have "list_all (\<lambda>i. case child node i of None \<Rightarrow> True
                    | Some c \<Rightarrow> k + 1 \<noteq> md \<and> node_inv dm md (k + 1) c)
        [0..<length (childs node)] \<longleftrightarrow>
     (\<forall>i c. child node i = Some c \<longrightarrow> k + 1 \<noteq> md \<and> node_inv dm md (k + 1) c)"
    (is "?L \<longleftrightarrow> ?R")
  proof
    assume l: ?L
    show ?R
    proof (intro allI impI)
      fix i c assume c: "child node i = Some c"
      then have "i < length (childs node)"
        by (auto simp: child_def split: if_splits)
      with l have "case child node i of None \<Rightarrow> True
                    | Some c \<Rightarrow> k + 1 \<noteq> md \<and> node_inv dm md (k + 1) c"
        by (simp add: list_all_iff)
      with c show "k + 1 \<noteq> md \<and> node_inv dm md (k + 1) c"
        by simp
    qed
  next
    assume ?R
    then show ?L
      by (auto simp: list_all_iff split: option.splits)
  qed
  then show ?thesis
    by (subst node_inv.simps) simp
qed

lemma child_Node_update:
  "child (Node ce da k (cs[j := x])) i = (if i = j \<and> j < length cs then x else child (Node ce da k cs) i)"
  by (auto simp: child_def)

lemma child_Node_replicate: "child (Node ce da k (replicate n None)) i = None"
  by (simp add: child_def)

lemma child_Node: "child (Node ce da k cs) i = child (Node ce' da' k' cs) i"
  by (simp add: child_def)

lemma node_inv_data:
  assumes "node_inv dm md k (Node ce da j cs)"
  shows "node_inv dm md k (Node ce da' j cs)"
proof -
  have "child (Node ce da' j cs) = child (Node ce da j cs)"
    by (rule ext) (rule child_Node)
  with assms show ?thesis
    by (subst node_inv_iff, subst (asm) node_inv_iff) simp
qed

lemma node_inv_fresh: "node_inv dm md 0 (root_node (Octree d0 dm mn mx md))"
  by (subst node_inv_iff) (auto simp: Octree_def child_Node_replicate)

lemma node_inv_insert_node:
  "node_inv (DIM t) (max_depth t) k node \<Longrightarrow>
   node_inv (DIM t) (max_depth t) k (fst (insert_node upd wide t fuel node pos dat))"
proof (induction fuel arbitrary: node k)
  case 0
  then show ?case by simp
next
  case (Suc fuel)
  note inv = Suc.prems
  from inv have dk: "depth node = k" and len: "length (childs node) = child_num (DIM t)"
    and lt: "0 < max_depth t \<longrightarrow> k < max_depth t"
    and ch: "\<And>i c. child node i = Some c \<Longrightarrow> k + 1 \<noteq> max_depth t \<and> node_inv (DIM t) (max_depth t) (k + 1) c"
    by (subst (asm) node_inv_iff; blast)+
  show ?case
  proof (cases "depth node + 1 = max_depth t")
    case True
    with inv show ?thesis by simp
  next
    case False
    define index where "index = find_index t pos node"
    define c0 where "c0 = (case child node index of
                   None \<Rightarrow> Node (find_center wide t pos node) dat (depth node + 1)
                             (replicate (child_num (DIM t)) None)
                 | Some old \<Rightarrow> Node (center old) (upd (data old) dat) (depth old) (childs old))"
    define c' where "c' = fst (insert_node upd wide t fuel c0 pos dat)"
    have res: "fst (insert_node upd wide t (Suc fuel) node pos dat) =
        Node (center node) (data node) (depth node) ((childs node)[index := Some c'])"
      using False by (simp add: Let_def index_def c0_def c'_def split: prod.splits)
    have c0: "node_inv (DIM t) (max_depth t) (k + 1) c0"
    proof (cases "child node index")
      case None
      then have "c0 = Node (find_center wide t pos node) dat (depth node + 1)
                             (replicate (child_num (DIM t)) None)"
        by (simp add: c0_def)
      moreover have "0 < max_depth t \<longrightarrow> k + 1 < max_depth t"
        using lt False dk by auto
      ultimately show ?thesis
        using dk by (subst node_inv_iff) (auto simp: child_Node_replicate)
    next
      case (Some old)
      then have e: "c0 = Node (center old) (upd (data old) dat) (depth old) (childs old)"
        by (simp add: c0_def)
      from ch [OF Some] have "node_inv (DIM t) (max_depth t) (k + 1) old" by simp
      then have "node_inv (DIM t) (max_depth t) (k + 1) (Node (center old) (data old) (depth old) (childs old))"
        by simp
      then show ?thesis
        unfolding e by (rule node_inv_data)
    qed
    then have c': "node_inv (DIM t) (max_depth t) (k + 1) c'"
      unfolding c'_def by (rule Suc.IH)
    have k1: "k + 1 \<noteq> max_depth t"
      using False dk by simp
    have "k + 1 \<noteq> max_depth t \<and> node_inv (DIM t) (max_depth t) (k + 1) c"
      if "child (Node (center node) (data node) (depth node) ((childs node)[index := Some c'])) i = Some c"
      for i c
    proof (cases "i = index \<and> index < length (childs node)")
      case True
      with that have "c = c'"
        by (simp add: child_Node_update)
      with c' k1 show ?thesis by simp
    next
      case False
      with that have "child (Node (center node) (data node) (depth node) (childs node)) i = Some c"
        by (simp add: child_Node_update)
      then have "child node i = Some c"
        by simp
      then show ?thesis by (rule ch)
    qed
    then show ?thesis
      unfolding res
      by (subst node_inv_iff) (use dk len lt in simp)
  qed
qed

lemma reachable_inv:
  "reachable upd wide t \<Longrightarrow> node_inv (DIM t) (max_depth t) 0 (root_node t)"
proof (induction rule: reachable.induct)
  case (constructed d0 dm mn mx dep)
  show ?case
    using node_inv_fresh [of dm dep d0 mn mx] by (simp add: Octree_def)
next
  case (inserted t fuel pos dat)
  then show ?case
    using node_inv_insert_node [of t 0 "root_node t" upd wide fuel pos dat]
    by (auto simp: insert_pos_def split: prod.splits)
qed

lemma reachable_sample: "reachable update wide0 sample"
  unfolding sample_def quad_def by (intro reachable.inserted reachable.constructed)

lemma node_inv_depth: "node_inv dm md k node \<Longrightarrow> depth node = k"
  by (subst (asm) node_inv_iff) simp

lemma node_inv_length: "node_inv dm md k node \<Longrightarrow> length (childs node) = child_num dm"
  by (subst (asm) node_inv_iff) simp

lemma node_inv_below: "node_inv dm md k node \<Longrightarrow> 0 < md \<Longrightarrow> k < md"
  by (subst (asm) node_inv_iff) simp

lemma node_inv_child:
  "node_inv dm md k node \<Longrightarrow> child node i = Some c \<Longrightarrow> k + 1 \<noteq> md \<and> node_inv dm md (k + 1) c"
  by (subst (asm) node_inv_iff) blast

lemma set_traverse:
  "set (traverse node) = {node} \<union> (\<Union>{set (traverse c) | i c. child node i = Some c})"
proof -
  have "(\<Union>i\<in>{0..<length (childs node)}. set (case child node i of None \<Rightarrow> [] | Some c \<Rightarrow> traverse c))
      = \<Union>{set (traverse c) | i c. child node i = Some c}" (is "?L = ?R")
  proof (intro set_eqI iffI)
    fix x assume "x \<in> ?L"
    then obtain i where "x \<in> set (case child node i of None \<Rightarrow> [] | Some c \<Rightarrow> traverse c)"
      by blast
    then show "x \<in> ?R"
      by (cases "child node i") auto
  next
    fix x assume "x \<in> ?R"
    then obtain i c where c: "child node i = Some c" and x: "x \<in> set (traverse c)"
      by blast
    from c have "i < length (childs node)"
      by (auto simp: child_def split: if_splits)
    with c x show "x \<in> ?L"
      by force
  qed
  then show ?thesis
    by (subst traverse.simps) simp
qed

lemma node_inv_traverse:
  "node_inv dm md k node \<Longrightarrow> n \<in> set (traverse node) \<Longrightarrow> \<exists>j\<ge>k. node_inv dm md j n"
proof (induction node arbitrary: k rule: traverse.induct)
  case (1 node)
  from "1.prems"(2) consider "n = node" | i c where "child node i = Some c" "n \<in> set (traverse c)"
    by (subst (asm) set_traverse) blast
  then show ?case
  proof cases
    case 1
    with "1.prems"(1) show ?thesis by blast
  next
    case 2
    then have i: "i \<in> set [0..<length (childs node)]"
      by (auto simp: child_def split: if_splits)
    from "1.prems"(1) 2(1) have "node_inv dm md (k + 1) c"
      by (blast dest: node_inv_child)
    from "1.IH" [OF i 2(1) this 2(2)] show ?thesis
      by (meson le_add1 le_trans)
  qed
qed

text \<open>
  Claim C4, for a depth limit of at least one. In every reachable tree every node lies
  strictly below the limit (so none exceeds it), every child is exactly one level below its
  parent, and a node with \<open>depth + 1 = max_depth\<close> has no child: \<^verbatim>\<open>insert\<close> returns at such
  a node without touching it. With a limit of zero the stop test never holds, and the nodes
  \<^verbatim>\<open>insert\<close> creates lie beyond the limit; the last theorem of this section evaluates
  such a tree.
\<close>

theorem depth_bound:
  assumes "reachable upd wide t" and "1 \<le> max_depth t" and "n \<in> set (visual t)"
  shows "depth n < max_depth t \<and>
         (\<forall>i c. child n i = Some c \<longrightarrow> depth c = depth n + 1) \<and>
         (depth n + 1 = max_depth t \<longrightarrow>
            (\<forall>i. child n i = None) \<and>
            insert_node upd wide t (Suc fuel) n pos dat = (n, Done))"
proof -
  from assms(1) have "node_inv (DIM t) (max_depth t) 0 (root_node t)"
    by (rule reachable_inv)
  moreover from assms(3) have "n \<in> set (traverse (root_node t))"
    by (simp add: visual_def)
  ultimately have "\<exists>j\<ge>0. node_inv (DIM t) (max_depth t) j n"
    by (rule node_inv_traverse)
  then obtain j where j: "node_inv (DIM t) (max_depth t) j n"
    by blast
  note dj = node_inv_depth [OF j] and ch = node_inv_child [OF j]
  have a: "depth n < max_depth t"
    using dj node_inv_below [OF j] assms(2) by simp
  have b: "depth c = depth n + 1" if "child n i = Some c" for i c
    using ch [OF that] dj by (auto dest: node_inv_depth)
  have c: "child n i = None" if "depth n + 1 = max_depth t" for i
  proof (cases "child n i")
    case (Some c)
    from ch [OF this] that dj show ?thesis by simp
  qed simp
  have d: "insert_node upd wide t (Suc fuel) n pos dat = (n, Done)" if "depth n + 1 = max_depth t"
    using that by simp
  show ?thesis
  proof (intro conjI allI impI)
    show "depth n < max_depth t" by (rule a)
  next
    fix i c assume "child n i = Some c"
    then show "depth c = depth n + 1" by (rule b)
  next
    fix i assume "depth n + 1 = max_depth t"
    then show "child n i = None" by (rule c)
  next
    assume "depth n + 1 = max_depth t"
    then show "insert_node upd wide t (Suc fuel) n pos dat = (n, Done)" by (rule d)
  qed
qed

theorem depth_bound_witness:
  "reachable update wide0 sample \<and>
   1 \<le> max_depth sample \<and>
   find_pos sample [25, 25] \<in> set (visual sample) \<and>
   depth (find_pos sample [25, 25]) + 1 = max_depth sample \<and>
   depth (find_pos sample [25, 25]) < max_depth sample \<and>
   child (find_pos sample [25, 25]) 0 = None"
proof -
  note r = reachable_sample
  have m: "1 \<le> max_depth sample"
    by (simp add: sample_value)
  have v: "find_pos sample [25, 25] \<in> set (visual sample)"
    unfolding sample_value by code_simp
  have e: "depth (find_pos sample [25, 25]) + 1 = max_depth sample"
    unfolding sample_value by code_simp
  from depth_bound [OF r m v, of 0 "[25, 25]" 1] e
  have "depth (find_pos sample [25, 25]) < max_depth sample \<and> child (find_pos sample [25, 25]) 0 = None"
    by blast
  with r m v e show ?thesis
    by blast
qed

text \<open>
  With a depth limit of zero, three nested calls of \<^verbatim>\<open>insert\<close> have built nodes of depth 1, 2
  and 3.
\<close>

theorem depth_bound_counterexample:
  "max_depth (fst (insert_pos update wide0 3 (quad 0) [25, 25] 1)) = 0 \<and>
   map depth (visual (fst (insert_pos update wide0 3 (quad 0) [25, 25] 1))) = [0, 1, 2, 3]"
  by code_simp

section \<open>Termination and recursion depth\<close>

lemma touched_child_inv:
  assumes inv: "node_inv (DIM t) (max_depth t) k node"
    and go: "depth node + 1 \<noteq> max_depth t"
  shows "node_inv (DIM t) (max_depth t) (k + 1)
     (case child node index of
        None \<Rightarrow> Node ce dat (depth node + 1) (replicate (child_num (DIM t)) None)
      | Some old \<Rightarrow> Node (center old) (upd (data old) dat) (depth old) (childs old))"
proof (cases "child node index")
  case None
  have "0 < max_depth t \<longrightarrow> k + 1 < max_depth t"
    using node_inv_below [OF inv] node_inv_depth [OF inv] go by auto
  then show ?thesis
    using None node_inv_depth [OF inv]
    by (subst node_inv_iff) (auto simp: child_Node_replicate)
next
  case (Some old)
  from node_inv_child [OF inv Some] have "node_inv (DIM t) (max_depth t) (k + 1) old"
    by simp
  then have "node_inv (DIM t) (max_depth t) (k + 1) (Node (center old) (data old) (depth old) (childs old))"
    by simp
  then have "node_inv (DIM t) (max_depth t) (k + 1) (Node (center old) (upd (data old) dat) (depth old) (childs old))"
    by (rule node_inv_data)
  with Some show ?thesis
    by simp
qed

lemma insert_node_Done:
  "node_inv (DIM t) (max_depth t) k node \<Longrightarrow> 0 < max_depth t \<Longrightarrow> max_depth t \<le> k + fuel \<Longrightarrow>
   snd (insert_node upd wide t fuel node pos dat) = Done"
proof (induction fuel arbitrary: node k)
  case 0
  then show ?case
    by (auto dest: node_inv_below)
next
  case (Suc fuel)
  show ?case
  proof (cases "depth node + 1 = max_depth t")
    case True
    then show ?thesis by simp
  next
    case False
    let ?c = "case child node (find_index t pos node) of
        None \<Rightarrow> Node (find_center wide t pos node) dat (depth node + 1) (replicate (child_num (DIM t)) None)
      | Some old \<Rightarrow> Node (center old) (upd (data old) dat) (depth old) (childs old)"
    have "node_inv (DIM t) (max_depth t) (k + 1) ?c"
      using Suc.prems(1) False by (rule touched_child_inv)
    moreover have "max_depth t \<le> (k + 1) + fuel"
      using Suc.prems(3) by simp
    ultimately have "snd (insert_node upd wide t fuel ?c pos dat) = Done"
      using Suc.prems(2) by (intro Suc.IH [where k = "k + 1"])
    with False show ?thesis
      by (simp add: Let_def case_prod_beta)
  qed
qed

lemma insert_node_never_Done:
  "max_depth t = 0 \<Longrightarrow> snd (insert_node upd wide t fuel node pos dat) = OutOfFuel"
  by (induction fuel arbitrary: node) (simp_all add: Let_def case_prod_beta)

lemma find_node_fuel_enough:
  "node_inv dm md k node \<Longrightarrow> 0 < md \<Longrightarrow> md \<le> k + fuel \<Longrightarrow>
   find_node_fuel fuel t node pos dep = Some (find_node t node pos dep)"
proof (induction fuel arbitrary: node k)
  case 0
  then show ?case
    by (auto dest: node_inv_below)
next
  case (Suc fuel)
  show ?case
  proof (cases "child node (find_index t pos node)")
    case None
    then show ?thesis
      by (subst find_node.simps) simp
  next
    case (Some c)
    from node_inv_child [OF Suc.prems(1) Some]
    have "node_inv dm md (k + 1) c" and "k + 1 \<noteq> md"
      by simp_all
    moreover have "md \<le> (k + 1) + fuel"
      using Suc.prems(3) by simp
    ultimately have "find_node_fuel fuel t c pos dep = Some (find_node t c pos dep)"
      using Suc.prems(2) by (intro Suc.IH [where k = "k + 1"])
    with Some show ?thesis
      by (subst find_node.simps) simp
  qed
qed

lemma those_map_Some:
  "(\<And>x. x \<in> set xs \<Longrightarrow> f x = Some (g x)) \<Longrightarrow> those (map f xs) = Some (map g xs)"
  by (induction xs) simp_all

lemma traverse_fuel_enough:
  "node_inv dm md k node \<Longrightarrow> 0 < md \<Longrightarrow> md \<le> k + fuel \<Longrightarrow>
   traverse_fuel fuel node = Some (traverse node)"
proof (induction fuel arbitrary: node k)
  case 0
  then show ?case
    by (auto dest: node_inv_below)
next
  case (Suc fuel)
  have "(case child node i of None \<Rightarrow> Some [] | Some c \<Rightarrow> traverse_fuel fuel c)
      = Some (case child node i of None \<Rightarrow> [] | Some c \<Rightarrow> traverse c)" for i
  proof (cases "child node i")
    case None
    then show ?thesis by simp
  next
    case (Some c)
    from node_inv_child [OF Suc.prems(1) Some]
    have "node_inv dm md (k + 1) c" and "k + 1 \<noteq> md"
      by simp_all
    moreover have "md \<le> (k + 1) + fuel"
      using Suc.prems(3) by simp
    ultimately have "traverse_fuel fuel c = Some (traverse c)"
      using Suc.prems(2) by (intro Suc.IH [where k = "k + 1"])
    with Some show ?thesis by simp
  qed
  then have "those (map (\<lambda>i. case child node i of None \<Rightarrow> Some [] | Some c \<Rightarrow> traverse_fuel fuel c)
                 [0..<length (childs node)])
     = Some (map (\<lambda>i. case child node i of None \<Rightarrow> [] | Some c \<Rightarrow> traverse c) [0..<length (childs node)])"
    by (intro those_map_Some)
  then show ?case
    by (subst traverse.simps) simp
qed

text \<open>
  Claim C6, for a depth limit of at least one. On every reachable tree \<^verbatim>\<open>insert\<close> returns
  within \<open>max_depth\<close> nested calls, and so do both overloads of \<^verbatim>\<open>find\<close> and the traversal
  of \<^verbatim>\<open>visual\<close>, with the results of the unbounded functions. \<^verbatim>\<open>find_boundary\<close> has no loop
  and no recursion. With a limit of zero \<^verbatim>\<open>insert\<close> does not return within any budget.
\<close>

theorem calls_return:
  assumes "reachable upd wide t" and "1 \<le> max_depth t"
  shows "snd (insert_pos upd wide (max_depth t) t pos dat) = Done \<and>
         find_node_fuel (max_depth t) t (root_node t) pos dep = Some (find_pos_depth t pos dep) \<and>
         find_node_fuel (max_depth t) t (root_node t) pos (max_depth t) = Some (find_pos t pos) \<and>
         traverse_fuel (max_depth t) (root_node t) = Some (visual t)"
proof -
  from assms(1) have inv: "node_inv (DIM t) (max_depth t) 0 (root_node t)"
    by (rule reachable_inv)
  from assms(2) have pos: "0 < max_depth t" and le: "max_depth t \<le> 0 + max_depth t"
    by simp_all
  have "snd (insert_node upd wide t (max_depth t) (root_node t) pos dat) = Done"
    using inv pos le by (rule insert_node_Done)
  then have a: "snd (insert_pos upd wide (max_depth t) t pos dat) = Done"
    by (simp add: insert_pos_def case_prod_beta)
  have b: "find_node_fuel (max_depth t) t (root_node t) pos d = Some (find_pos_depth t pos d)" for d
    unfolding find_pos_depth_def using inv pos le by (rule find_node_fuel_enough)
  have c: "traverse_fuel (max_depth t) (root_node t) = Some (visual t)"
    unfolding visual_def using inv pos le by (rule traverse_fuel_enough)
  from a b [of dep] b [of "max_depth t"] c show ?thesis
    by (simp add: find_pos_def)
qed

theorem calls_return_witness:
  "reachable update wide0 sample \<and>
   1 \<le> max_depth sample \<and>
   snd (insert_pos update wide0 (max_depth sample) sample [75, 20] 1) = Done \<and>
   traverse_fuel (max_depth sample) (root_node sample) = Some (visual sample)"
proof -
  note r = reachable_sample
  have m: "1 \<le> max_depth sample"
    by (simp add: sample_value)
  from calls_return [OF r m, of "[75, 20]" 1 0] r m show ?thesis
    by blast
qed

text \<open>
  A tree constructed with a depth limit of zero: ten nested calls of \<^verbatim>\<open>insert\<close> are not
  enough.
\<close>

theorem calls_return_counterexample:
  "max_depth (quad 0) = 0 \<and> snd (insert_pos update wide0 10 (quad 0) [25, 25] 1) = OutOfFuel"
proof -
  have m: "max_depth (quad 0) = 0"
    by (simp add: quad_def Octree_def)
  have "is_in (DIM (quad 0)) (boundary (quad 0)) [25, 25]"
    by code_simp
  then have "snd (insert_pos update wide0 10 (quad 0) [25, 25] 1)
      = snd (insert_node update wide0 (quad 0) 10 (root_node (quad 0)) [25, 25] 1)"
    by (simp add: insert_pos_def case_prod_beta)
  with m show ?thesis
    by (simp add: insert_node_never_Done)
qed

section \<open>Lookup\<close>

lemma descent_Nil [simp]: "descent t node pos \<noteq> []"
  by (subst descent.simps) simp

lemma descent_None:
  "child node (find_index t pos node) = None \<Longrightarrow> descent t node pos = [node]"
  by (subst descent.simps) simp

lemma descent_Some:
  "child node (find_index t pos node) = Some c \<Longrightarrow> descent t node pos = node # descent t c pos"
  by (subst descent.simps) simp

lemma depth_descent:
  "node_inv dm md k node \<Longrightarrow> j < length (descent t node pos) \<Longrightarrow>
   depth (descent t node pos ! j) = k + j"
proof (induction j arbitrary: node k)
  case 0
  then show ?case
    by (subst descent.simps) (simp add: node_inv_depth)
next
  case (Suc j)
  show ?case
  proof (cases "child node (find_index t pos node)")
    case None
    with Suc.prems(2) show ?thesis
      by (simp add: descent_None)
  next
    case (Some c)
    from node_inv_child [OF Suc.prems(1) Some] have "node_inv dm md (k + 1) c"
      by simp
    moreover from Suc.prems(2) Some have "j < length (descent t c pos)"
      by (simp add: descent_Some)
    ultimately have "depth (descent t c pos ! j) = (k + 1) + j"
      by (rule Suc.IH)
    with Some show ?thesis
      by (simp add: descent_Some)
  qed
qed

lemma find_node_descent:
  "node_inv dm md k node \<Longrightarrow> k \<le> d \<Longrightarrow>
   find_node t node pos d =
     (if d - k < length (descent t node pos) then descent t node pos ! (d - k)
      else last (descent t node pos))"
proof (induction t node pos d arbitrary: k rule: find_node.induct)
  case (1 t node pos dep)
  note dk = node_inv_depth [OF "1.prems"(1)]
  show ?case
  proof (cases "depth node = dep")
    case True
    with dk show ?thesis
      by (subst find_node.simps, subst descent.simps, subst descent.simps) simp
  next
    case False
    with dk "1.prems"(2) have lt: "k < dep"
      by simp
    show ?thesis
    proof (cases "child node (find_index t pos node)")
      case None
      with False lt show ?thesis
        by (subst find_node.simps) (simp add: descent_None)
    next
      case (Some c)
      from node_inv_child [OF "1.prems"(1) Some] have "node_inv dm md (k + 1) c"
        by simp
      moreover from lt have "k + 1 \<le> dep"
        by simp
      ultimately have "find_node t c pos dep =
         (if dep - (k + 1) < length (descent t c pos) then descent t c pos ! (dep - (k + 1))
          else last (descent t c pos))"
        using False Some by (intro "1.IH")
      moreover have "find_node t node pos dep = find_node t c pos dep"
        using False Some by (subst find_node.simps) simp
      moreover from lt have "dep - k = Suc (dep - (k + 1))"
        by simp
      ultimately show ?thesis
        using Some by (simp add: descent_Some)
    qed
  qed
qed

lemma find_node_in_traverse: "find_node t node pos d \<in> set (traverse node)"
proof (induction t node pos d rule: find_node.induct)
  case (1 t node pos dep)
  show ?case
  proof (cases "depth node = dep \<or> child node (find_index t pos node) = None")
    case True
    then have "find_node t node pos dep = node"
      by (subst find_node.simps) auto
    then show ?thesis
      by (subst set_traverse) simp
  next
    case False
    then obtain c where c: "child node (find_index t pos node) = Some c" and ne: "depth node \<noteq> dep"
      by auto
    then have "find_node t node pos dep = find_node t c pos dep"
      by (subst find_node.simps) simp
    moreover from "1.IH" [OF ne c] have "find_node t c pos dep \<in> set (traverse c)" .
    ultimately show ?thesis
      using c by (subst set_traverse) auto
  qed
qed

text \<open>
  Claim C3. On every reachable tree, for every position (inside the boundary or not) and
  every depth \<open>d\<close>, \<^verbatim>\<open>find(pos, d)\<close> returns a node of the tree, of depth at most \<open>d\<close>, on
  the path that starts at the root and follows the quadrant indices: the node at position
  \<open>d\<close> of the path, which has depth \<open>d\<close>, when the path is that long, and the last node of
  the path otherwise. \<^verbatim>\<open>find(pos)\<close> is \<^verbatim>\<open>find(pos, max_depth_)\<close>. The lookup is a function
  of the tree and builds no node: what it returns is one of the nodes that \<^verbatim>\<open>visual\<close> visits.
\<close>

theorem find_on_path:
  assumes "reachable upd wide t"
  shows "find_pos_depth t pos d \<in> set (visual t) \<and>
         depth (find_pos_depth t pos d) \<le> d \<and>
         hd (descent t (root_node t) pos) = root_node t \<and>
         (\<forall>k. k < length (descent t (root_node t) pos) \<longrightarrow>
              depth (descent t (root_node t) pos ! k) = k) \<and>
         (d < length (descent t (root_node t) pos) \<longrightarrow>
              find_pos_depth t pos d = descent t (root_node t) pos ! d) \<and>
         (length (descent t (root_node t) pos) \<le> d \<longrightarrow>
              find_pos_depth t pos d = last (descent t (root_node t) pos)) \<and>
         find_pos t pos = find_pos_depth t pos (max_depth t)"
proof -
  let ?p = "descent t (root_node t) pos"
  from assms have inv: "node_inv (DIM t) (max_depth t) 0 (root_node t)"
    by (rule reachable_inv)
  have dp: "depth (?p ! k) = k" if "k < length ?p" for k
    using depth_descent [OF inv that] by simp
  have f: "find_pos_depth t pos d = (if d < length ?p then ?p ! d else last ?p)"
    unfolding find_pos_depth_def using find_node_descent [OF inv, of d t pos] by simp
  have a: "find_pos_depth t pos d \<in> set (visual t)"
    unfolding find_pos_depth_def visual_def by (rule find_node_in_traverse)
  have b: "depth (find_pos_depth t pos d) \<le> d"
  proof (cases "d < length ?p")
    case True
    with f dp show ?thesis by simp
  next
    case False
    have "last ?p = ?p ! (length ?p - 1)"
      by (rule last_conv_nth) simp
    moreover have "length ?p - 1 < length ?p"
      by (simp add: length_greater_0_conv)
    ultimately have "depth (last ?p) = length ?p - 1"
      using dp by simp
    with f False show ?thesis by simp
  qed
  have h: "hd ?p = root_node t"
    by (subst descent.simps) simp
  show ?thesis
  proof (intro conjI allI impI)
    show "find_pos_depth t pos d \<in> set (visual t)" by (rule a)
    show "depth (find_pos_depth t pos d) \<le> d" by (rule b)
    show "hd ?p = root_node t" by (rule h)
    show "find_pos t pos = find_pos_depth t pos (max_depth t)" by (simp add: find_pos_def)
  next
    fix k assume "k < length ?p"
    then show "depth (?p ! k) = k" by (rule dp)
  next
    assume "d < length ?p"
    with f show "find_pos_depth t pos d = ?p ! d" by simp
  next
    assume "length ?p \<le> d"
    with f show "find_pos_depth t pos d = last ?p" by simp
  qed
qed

theorem find_on_path_witness:
  "reachable update wide0 sample \<and>
   length (descent sample (root_node sample) [25, 25]) = 4 \<and>
   find_pos_depth sample [25, 25] 2 = descent sample (root_node sample) [25, 25] ! 2 \<and>
   find_pos_depth sample [25, 25] 7 = last (descent sample (root_node sample) [25, 25]) \<and>
   depth (find_pos_depth sample [25, 25] 2) = 2"
proof -
  note r = reachable_sample
  have l: "length (descent sample (root_node sample) [25, 25]) = 4"
    unfolding sample_value by code_simp
  from find_on_path [OF r, of "[25, 25]" 2] l
  have a: "find_pos_depth sample [25, 25] 2 = descent sample (root_node sample) [25, 25] ! 2"
    and c: "depth (descent sample (root_node sample) [25, 25] ! 2) = 2"
    by simp_all
  from find_on_path [OF r, of "[25, 25]" 7] l
  have b: "find_pos_depth sample [25, 25] 7 = last (descent sample (root_node sample) [25, 25])"
    by simp
  from r l a b c show ?thesis
    by simp
qed

section \<open>Aggregation along a path\<close>

lemma find_index_root [simp]: "find_index (t\<lparr>root_node := r\<rparr>) pos node = find_index t pos node"
  by (simp add: find_index_def)

lemma find_center_root [simp]:
  "find_center wide (t\<lparr>root_node := r\<rparr>) pos node = find_center wide t pos node"
  by (simp add: find_center_def)

lemma insert_node_root [simp]:
  "insert_node upd wide (t\<lparr>root_node := r\<rparr>) fuel node pos dat = insert_node upd wide t fuel node pos dat"
  by (induction fuel arbitrary: node) (simp_all cong: option.case_cong)

lemma route_root [simp]: "route wide (t\<lparr>root_node := r\<rparr>) n node pos = route wide t n node pos"
  by (induction n arbitrary: node) simp_all

lemma on_path_root [simp]:
  "on_path wide (t\<lparr>root_node := r\<rparr>) n node pos w = on_path wide t n node pos w"
  by (induction n arbitrary: node) (simp_all cong: option.case_cong)

lemma descent_root [simp]: "descent (t\<lparr>root_node := r\<rparr>) node pos = descent t node pos"
proof (induction t node pos rule: descent.induct)
  case (1 t node pos)
  show ?case
  proof (cases "child node (find_index t pos node)")
    case None
    then show ?thesis
      by (simp add: descent_None)
  next
    case (Some c)
    with "1.IH" [OF Some] show ?thesis
      by (simp add: descent_Some)
  qed
qed

lemma find_node_root [simp]: "find_node (t\<lparr>root_node := r\<rparr>) node pos d = find_node t node pos d"
proof (induction t node pos d rule: find_node.induct)
  case (1 t node pos dep)
  show ?case
  proof (cases "depth node = dep")
    case True
    then show ?thesis
      by (subst find_node.simps, subst (2) find_node.simps) simp
  next
    case False
    show ?thesis
    proof (cases "child node (find_index t pos node)")
      case None
      with False show ?thesis
        by (subst find_node.simps, subst (2) find_node.simps) simp
    next
      case (Some c)
      with False "1.IH" [OF False Some] show ?thesis
        by (subst find_node.simps, subst (2) find_node.simps) simp
    qed
  qed
qed

lemma find_index_cong:
  "center a = center b \<Longrightarrow> find_index t pos a = find_index t pos b"
  by (simp add: find_index_def)

lemma find_center_cong:
  "center a = center b \<Longrightarrow> depth a = depth b \<Longrightarrow> find_center wide t pos a = find_center wide t pos b"
  by (simp add: find_center_def)

lemma find_center_index:
  assumes "find_index t p node = find_index t q node"
  shows "find_center wide t p node = find_center wide t q node"
proof -
  have "(p ! i > center node ! i) = (q ! i > center node ! i)" if "i < DIM t" for i
    using bit_find_index [of t p node i] bit_find_index [of t q node i] assms that by simp
  then show ?thesis
    unfolding find_center_def Let_def by (intro fold_cong) auto
qed

lemma route_cong:
  "center a = center b \<Longrightarrow> depth a = depth b \<Longrightarrow> route wide t n a pos = route wide t n b pos"
proof (induction n arbitrary: a b)
  case 0
  show ?case by simp
next
  case (Suc n)
  have "route wide t n (Node (find_center wide t pos a) (data a) (depth a + 1) []) pos
      = route wide t n (Node (find_center wide t pos b) (data b) (depth b + 1) []) pos"
    by (rule Suc.IH) (simp_all add: find_center_cong [OF Suc.prems] Suc.prems)
  then show ?case
    using Suc.prems by (simp add: find_index_cong [of a b])
qed


lemma route_step:
  assumes "route wide t (Suc n) node p = route wide t (Suc n) node q"
    and "center c = find_center wide t q node" and "depth c = depth node + 1"
  shows "find_index t p node = find_index t q node"
    and "find_center wide t p node = find_center wide t q node"
    and "route wide t n c p = route wide t n c q"
proof -
  from assms(1) show i: "find_index t p node = find_index t q node"
    by simp
  then show f: "find_center wide t p node = find_center wide t q node"
    by (rule find_center_index)
  from assms(1) f have
    "route wide t n (Node (find_center wide t q node) (data node) (depth node + 1) []) p
      = route wide t n (Node (find_center wide t q node) (data node) (depth node + 1) []) q"
    by simp
  moreover have "route wide t n c pos
      = route wide t n (Node (find_center wide t q node) (data node) (depth node + 1) []) pos" for pos
    by (rule route_cong) (simp_all add: assms)
  ultimately show "route wide t n c p = route wide t n c q"
    by simp
qed

lemma insert_node_fresh:
  assumes "\<And>i. child node i = None"
    and "length (childs node) = child_num (DIM t)"
    and "depth node + n + 1 = max_depth t"
    and "n < fuel"
    and "route wide t n node p = route wide t n node q"
  shows "\<exists>node'. insert_node upd wide t fuel node p v = (node', Done) \<and>
           center node' = center node \<and> depth node' = depth node \<and> data node' = data node \<and>
           length (childs node') = length (childs node) \<and> on_path wide t n node' q v"
  using assms
proof (induction n arbitrary: node fuel)
  case 0
  then obtain f where "fuel = Suc f"
    by (cases fuel) auto
  with 0 show ?case
    by simp
next
  case (Suc n)
  from Suc.prems(4) obtain f where f: "fuel = Suc f" and nf: "n < f"
    by (cases fuel) auto
  from Suc.prems(3) have go: "depth node + 1 \<noteq> max_depth t"
    by simp
  define c0 where "c0 = Node (find_center wide t p node) v (depth node + 1)
                             (replicate (child_num (DIM t)) None :: ('a, 'b) node option list)"
  have c0d: "depth c0 = depth node + 1"
    by (simp add: c0_def)
  have "center c0 = find_center wide t p node"
    by (simp add: c0_def)
  also have "\<dots> = find_center wide t q node"
    using Suc.prems(5) by (intro find_center_index) simp
  finally have c0c: "center c0 = find_center wide t q node" .
  note st = route_step [OF Suc.prems(5) c0c c0d]
  have "\<exists>c'. insert_node upd wide t f c0 p v = (c', Done) \<and>
           center c' = center c0 \<and> depth c' = depth c0 \<and> data c' = data c0 \<and>
           length (childs c') = length (childs c0) \<and> on_path wide t n c' q v"
  proof (rule Suc.IH)
    show "child c0 i = None" for i
      by (simp add: c0_def child_Node_replicate)
    show "length (childs c0) = child_num (DIM t)"
      by (simp add: c0_def)
    show "depth c0 + n + 1 = max_depth t"
      using Suc.prems(3) by (simp add: c0_def)
    show "n < f" by (rule nf)
    show "route wide t n c0 p = route wide t n c0 q"
      by (rule st(3))
  qed
  then obtain c' where ins: "insert_node upd wide t f c0 p v = (c', Done)"
    and c'c: "center c' = center c0" and c'd: "depth c' = depth c0" and c'v: "data c' = data c0"
    and c'l: "length (childs c') = length (childs c0)" and c'p: "on_path wide t n c' q v"
    by blast
  let ?node' = "Node (center node) (data node) (depth node)
      ((childs node)[find_index t p node := Some c'])"
  have res: "insert_node upd wide t fuel node p v = (?node', Done)"
    using go ins Suc.prems(1) by (simp add: f Let_def c0_def)
  have idx: "find_index t q ?node' = find_index t p node"
    using st(1) by (simp add: find_index_def)
  have lt: "find_index t p node < length (childs node)"
    using find_index_less [of t p node] Suc.prems(2) by (simp add: child_num_def)
  have ch: "child ?node' (find_index t q ?node') = Some c'"
    unfolding idx using lt by (simp add: child_Node_update)
  have fc: "find_center wide t q ?node' = find_center wide t q node"
    by (rule find_center_cong) simp_all
  have "on_path wide t (Suc n) ?node' q v"
    using ch c'c c'd c'v c'l c'p c0c c0d fc by (simp add: c0_def)
  with res show ?case
    by simp
qed



lemma descent_on_path:
  assumes "node_inv (DIM t) (max_depth t) k node"
    and "k + n + 1 = max_depth t"
    and "on_path wide t n node q w"
    and "route wide t n node p = route wide t n node q"
  shows "descent t node p = descent t node q \<and>
         map data (descent t node q) = data node # replicate n w"
  using assms
proof (induction n arbitrary: node k)
  case 0
  have "child node i = None" for i
  proof (cases "child node i")
    case (Some c)
    from node_inv_child [OF "0.prems"(1) Some] "0.prems"(2) show ?thesis
      by simp
  qed simp
  then show ?case
    by (simp add: descent_None)
next
  case (Suc n)
  from Suc.prems(3) obtain c where c: "child node (find_index t q node) = Some c"
    and cc: "center c = find_center wide t q node" and cd: "depth c = depth node + 1"
    and cw: "data c = w" and cp: "on_path wide t n c q w"
    by (auto split: option.splits)
  note st = route_step [OF Suc.prems(4) cc cd]
  from node_inv_child [OF Suc.prems(1) c] have "node_inv (DIM t) (max_depth t) (k + 1) c"
    by simp
  moreover from Suc.prems(2) have "(k + 1) + n + 1 = max_depth t"
    by simp
  ultimately have "descent t c p = descent t c q \<and>
         map data (descent t c q) = data c # replicate n w"
    using cp st(3) by (rule Suc.IH)
  with c st(1) cw show ?case
    by (simp add: descent_Some)
qed


lemma insert_pos_first:
  assumes md: "1 \<le> md" and fuel: "md \<le> fuel"
    and inb: "is_in dm \<lparr>min_pt = mn, max_pt = mx\<rparr> p"
  shows "\<exists>r. insert_pos upd wide fuel (Octree d0 dm mn mx md) p v
             = ((Octree d0 dm mn mx md)\<lparr>root_node := r\<rparr>, Done) \<and>
           center r = center (root_node (Octree d0 dm mn mx md)) \<and> depth r = 0 \<and> data r = d0 \<and>
           length (childs r) = child_num dm \<and>
           on_path wide (Octree d0 dm mn mx md) (md - 1) r p v"
proof -
  let ?t = "Octree d0 dm mn mx md"
  have "\<exists>node'. insert_node upd wide ?t fuel (root_node ?t) p v = (node', Done) \<and>
           center node' = center (root_node ?t) \<and> depth node' = depth (root_node ?t) \<and>
           data node' = data (root_node ?t) \<and>
           length (childs node') = length (childs (root_node ?t)) \<and>
           on_path wide ?t (md - 1) node' p v"
  proof (rule insert_node_fresh)
    show "child (root_node ?t) i = None" for i
      by (simp add: Octree_def child_Node_replicate)
    show "length (childs (root_node ?t)) = child_num (DIM ?t)"
      by (simp add: Octree_def)
    show "depth (root_node ?t) + (md - 1) + 1 = max_depth ?t"
      using md by (simp add: Octree_def)
    show "md - 1 < fuel"
      using md fuel by simp
    show "route wide ?t (md - 1) (root_node ?t) p = route wide ?t (md - 1) (root_node ?t) p"
      by simp
  qed
  then obtain r where "insert_node upd wide ?t fuel (root_node ?t) p v = (r, Done)"
    and "center r = center (root_node ?t)" and "depth r = 0" and "data r = d0"
    and "length (childs r) = child_num dm" and "on_path wide ?t (md - 1) r p v"
    by (auto simp: Octree_def)
  moreover have "is_in (DIM ?t) (boundary ?t) p"
    using inb by (simp add: Octree_def)
  ultimately show ?thesis
    by (auto simp: insert_pos_def)
qed










section \<open>The regions of nodes\<close>

lemma shl1_small: "n < 31 \<Longrightarrow> shl1 wide n = 2 ^ n"
proof -
  assume n: "n < 31"
  have lt: "(2::int) ^ n < 2 ^ 31"
    using n by (rule power_strict_increasing) simp
  have ge: "- ((2::int) ^ 31) \<le> 2 ^ n"
    by (rule order_trans [of _ 0]) simp_all
  have "uint (2 ^ n :: 32 word) = 2 ^ n"
    using n by (intro uint_2p) (simp add: word_greater_zero_iff)
  moreover have "signed_take_bit 31 ((2::int) ^ n) = 2 ^ n"
    using ge lt by (rule signed_take_bit_int_eq_self)
  ultimately have "sint (push_bit n (1 :: 32 word)) = 2 ^ n"
    by (simp add: sint_uint)
  with n show ?thesis
    by (simp add: shl1_def)
qed

lemma shl1_31: "shl1 wide 31 = - (2 ^ 31)"
  by (simp add: shl1_def)

lemma find_boundary_in_range:
  "depth node < 30 \<Longrightarrow> find_boundary wide t node = region_spec t node"
  by (simp add: find_boundary_def region_spec_def vdiv_def shl1_small)

lemma find_boundary_pure:
  "center a = center b \<Longrightarrow> depth a = depth b \<Longrightarrow> size_b (boundary t) = size_b (boundary t') \<Longrightarrow>
   find_boundary wide t a = find_boundary wide t' b"
  by (simp add: find_boundary_def)

lemma vsub_neg: "vsub c (map (\<lambda>x. - (x / k)) s) = vadd c (map (\<lambda>x. x / k) s)"
  unfolding vsub_def vadd_def by (induction c s rule: list_induct2') simp_all

lemma vadd_neg: "vadd c (map (\<lambda>x. - (x / k)) s) = vsub c (map (\<lambda>x. x / k) s)"
  unfolding vsub_def vadd_def by (induction c s rule: list_induct2') simp_all

lemma find_boundary_depth_30:
  "depth node = 30 \<Longrightarrow>
   find_boundary wide t node
     = \<lparr>min_pt = max_pt (region_spec t node), max_pt = min_pt (region_spec t node)\<rparr>"
  by (simp add: find_boundary_def region_spec_def vdiv_def shl1_31 vsub_neg vadd_neg Let_def)

lemma nth_vsub: "i < length a \<Longrightarrow> i < length b \<Longrightarrow> vsub a b ! i = a ! i - b ! i"
  by (simp add: vsub_def)

lemma nth_vadd: "i < length a \<Longrightarrow> i < length b \<Longrightarrow> vadd a b ! i = a ! i + b ! i"
  by (simp add: vadd_def)

lemma nth_vdiv: "i < length a \<Longrightarrow> vdiv a k ! i = a ! i / of_int k"
  by (simp add: vdiv_def)

lemma length_vdiv [simp]: "length (vdiv a k) = length a"
  by (simp add: vdiv_def)

lemma length_size_b: "sized t \<Longrightarrow> length (size_b (boundary t)) = DIM t"
  by (simp add: sized_def size_b_def vsub_def)

lemma nth_size_b:
  "sized t \<Longrightarrow> i < DIM t \<Longrightarrow>
   size_b (boundary t) ! i = max_pt (boundary t) ! i - min_pt (boundary t) ! i"
  by (simp add: sized_def size_b_def nth_vsub)

lemma is_in_iff:
  "is_in dm b x \<longleftrightarrow> (\<forall>i<dm. min_pt b ! i \<le> x ! i \<and> x ! i \<le> max_pt b ! i)"
  by (auto simp: is_in_def list_all_iff not_less)

lemma fold_update_length:
  "length (fold (\<lambda>i c. c[i := g i (c ! i)]) [0..<n] c0) = length c0"
  by (induction n) simp_all

lemma fold_update_nth:
  "j < length c0 \<Longrightarrow>
   fold (\<lambda>i c. c[i := g i (c ! i)]) [0..<n] c0 ! j = (if j < n then g j (c0 ! j) else c0 ! j)"
proof (induction n)
  case 0
  show ?case by simp
next
  case (Suc n)
  then show ?case
    by (auto simp: fold_update_length nth_list_update less_Suc_eq)
qed

lemma length_find_center [simp]:
  "length (find_center wide t q node) = length (center node)"
  unfolding find_center_def Let_def
  by (rule fold_update_length
      [where g = "\<lambda>i x. if q ! i > center node ! i
                       then x + vdiv (size_b (boundary t)) (shl1 wide (depth node + 2)) ! i
                       else x - vdiv (size_b (boundary t)) (shl1 wide (depth node + 2)) ! i"])

lemma nth_find_center:
  assumes "sized t" and "length (center node) = DIM t" and "i < DIM t"
  shows "find_center wide t q node ! i =
     (if q ! i > center node ! i
      then center node ! i + size_b (boundary t) ! i / of_int (shl1 wide (depth node + 2))
      else center node ! i - size_b (boundary t) ! i / of_int (shl1 wide (depth node + 2)))"
proof -
  have "find_center wide t q node ! i =
      (if i < DIM t
       then (if q ! i > center node ! i
             then center node ! i + vdiv (size_b (boundary t)) (shl1 wide (depth node + 2)) ! i
             else center node ! i - vdiv (size_b (boundary t)) (shl1 wide (depth node + 2)) ! i)
       else center node ! i)"
    unfolding find_center_def Let_def
    by (rule fold_update_nth
      [where g = "\<lambda>i x. if q ! i > center node ! i
                       then x + vdiv (size_b (boundary t)) (shl1 wide (depth node + 2)) ! i
                       else x - vdiv (size_b (boundary t)) (shl1 wide (depth node + 2)) ! i"])
      (use assms in simp)
  then show ?thesis
    using assms by (simp add: nth_vdiv length_size_b)
qed

lemma nth_find_boundary:
  assumes "sized t" and "length (center node) = DIM t" and "i < DIM t"
  shows "min_pt (find_boundary wide t node) ! i
           = center node ! i - size_b (boundary t) ! i / of_int (shl1 wide (depth node + 1))"
    and "max_pt (find_boundary wide t node) ! i
           = center node ! i + size_b (boundary t) ! i / of_int (shl1 wide (depth node + 1))"
  using assms by (simp_all add: find_boundary_def Let_def nth_vsub nth_vadd nth_vdiv length_size_b)


lemma half_twice: "(s::'a::linordered_field) / 2 ^ (k + 2) + s / 2 ^ (k + 2) = s / 2 ^ (k + 1)"
  by (simp add: field_simps)

lemma child_cell:
  assumes sz: "sized t" and len: "length (center node) = DIM t" and i: "i < DIM t"
    and k: "depth node < 29"
    and cc: "center c = find_center wide t q node" and cd: "depth c = depth node + 1"
  shows "min_pt (find_boundary wide t c) ! i
           = (if q ! i > center node ! i then center node ! i
              else min_pt (find_boundary wide t node) ! i)"
    and "max_pt (find_boundary wide t c) ! i
           = (if q ! i > center node ! i then max_pt (find_boundary wide t node) ! i
              else center node ! i)"
proof -
  let ?s = "size_b (boundary t) ! i"
  let ?k = "depth node"
  have lc: "length (center c) = DIM t"
    using len by (simp add: cc)
  have s1: "shl1 wide (?k + 1) = 2 ^ (?k + 1)" and s2: "shl1 wide (?k + 2) = 2 ^ (?k + 2)"
    using k by (simp_all add: shl1_small)
  have ce: "center c ! i = (if q ! i > center node ! i
      then center node ! i + ?s / 2 ^ (?k + 2) else center node ! i - ?s / 2 ^ (?k + 2))"
    unfolding cc using nth_find_center [OF sz len i, of wide q] by (simp only: s2) simp
  have cmin: "min_pt (find_boundary wide t c) ! i = center c ! i - ?s / 2 ^ (?k + 2)"
    and cmax: "max_pt (find_boundary wide t c) ! i = center c ! i + ?s / 2 ^ (?k + 2)"
    using nth_find_boundary [OF sz lc i, of wide] s2 by (simp_all add: cd)
  have pmin: "min_pt (find_boundary wide t node) ! i = center node ! i - ?s / 2 ^ (?k + 1)"
    and pmax: "max_pt (find_boundary wide t node) ! i = center node ! i + ?s / 2 ^ (?k + 1)"
    using nth_find_boundary [OF sz len i, of wide] s1 by simp_all
  note h = half_twice [of ?s ?k]
  show "min_pt (find_boundary wide t c) ! i
           = (if q ! i > center node ! i then center node ! i
              else min_pt (find_boundary wide t node) ! i)"
    unfolding cmin pmin ce using h by (simp add: algebra_simps)
  show "max_pt (find_boundary wide t c) ! i
           = (if q ! i > center node ! i then max_pt (find_boundary wide t node) ! i
              else center node ! i)"
    unfolding cmax pmax ce using h by (simp add: algebra_simps)
qed

lemma child_cell_inside:
  assumes "sized t" and "length (center node) = DIM t" and "depth node < 29"
    and "center c = find_center wide t q node" and "depth c = depth node + 1"
    and "is_in (DIM t) (find_boundary wide t c) x"
  shows "is_in (DIM t) (find_boundary wide t node) x"
  unfolding is_in_iff
proof (intro allI impI)
  fix i assume i: "i < DIM t"
  note cell = child_cell [OF assms(1,2) i assms(3,4,5)]
  from assms(6) i have "min_pt (find_boundary wide t c) ! i \<le> x ! i"
    and "x ! i \<le> max_pt (find_boundary wide t c) ! i"
    by (simp_all add: is_in_iff)
  moreover have "min_pt (find_boundary wide t node) ! i + max_pt (find_boundary wide t node) ! i
      = 2 * center node ! i"
    using nth_find_boundary [OF assms(1,2) i, of wide] by simp
  ultimately show "min_pt (find_boundary wide t node) ! i \<le> x ! i \<and>
       x ! i \<le> max_pt (find_boundary wide t node) ! i"
    unfolding cell by (auto split: if_splits)
qed

lemma child_cell_cover:
  assumes "sized t" and "length (center node) = DIM t" and "depth node < 29"
    and "center c = find_center wide t x node" and "depth c = depth node + 1"
    and "is_in (DIM t) (find_boundary wide t node) x"
  shows "is_in (DIM t) (find_boundary wide t c) x"
  unfolding is_in_iff
proof (intro allI impI)
  fix i assume i: "i < DIM t"
  note cell = child_cell [OF assms(1,2) i assms(3,4,5)]
  from assms(6) i have "min_pt (find_boundary wide t node) ! i \<le> x ! i"
    and "x ! i \<le> max_pt (find_boundary wide t node) ! i"
    by (simp_all add: is_in_iff)
  then show "min_pt (find_boundary wide t c) ! i \<le> x ! i \<and>
       x ! i \<le> max_pt (find_boundary wide t c) ! i"
    unfolding cell by auto
qed

lemma child_cells_meet:
  assumes "sized t" and "length (center node) = DIM t" and "depth node < 29"
    and "center c = find_center wide t q node" and "depth c = depth node + 1"
    and "center c' = find_center wide t q' node" and "depth c' = depth node + 1"
    and "is_in (DIM t) (find_boundary wide t c) x"
    and "is_in (DIM t) (find_boundary wide t c') x"
    and "find_index t q node \<noteq> find_index t q' node"
  shows "\<exists>i<DIM t. x ! i = center node ! i"
proof -
  from assms(10) obtain i where "bit (find_index t q node) i \<noteq> bit (find_index t q' node) i"
    by (auto simp: bit_eq_iff)
  then have i: "i < DIM t" and ne: "(q ! i > center node ! i) \<noteq> (q' ! i > center node ! i)"
    by (auto simp: bit_find_index)
  note cell = child_cell [OF assms(1,2) i assms(3,4,5)]
  note cell' = child_cell [OF assms(1,2) i assms(3,6,7)]
  from assms(8,9) i have "min_pt (find_boundary wide t c) ! i \<le> x ! i"
    and "x ! i \<le> max_pt (find_boundary wide t c) ! i"
    and "min_pt (find_boundary wide t c') ! i \<le> x ! i"
    and "x ! i \<le> max_pt (find_boundary wide t c') ! i"
    by (simp_all add: is_in_iff)
  with ne have "x ! i = center node ! i"
    unfolding cell cell' by (auto split: if_splits)
  with i show ?thesis
    by blast
qed

lemma root_region:
  assumes "sized t" and "center (root_node t) = center_b (boundary t)" and "depth (root_node t) = 0"
  shows "is_in (DIM t) (find_boundary wide t (root_node t)) x = is_in (DIM t) (boundary t) x"
proof -
  have len: "length (center (root_node t)) = DIM t"
    using assms(1,2) by (simp add: sized_def center_b_def vadd_def)
  have "min_pt (find_boundary wide t (root_node t)) ! i = min_pt (boundary t) ! i \<and>
        max_pt (find_boundary wide t (root_node t)) ! i = max_pt (boundary t) ! i" if i: "i < DIM t" for i
  proof -
    have "center (root_node t) ! i = (max_pt (boundary t) ! i + min_pt (boundary t) ! i) / 2"
      using assms(1,2) i by (simp add: sized_def center_b_def nth_vdiv nth_vadd vadd_def)
    moreover have "shl1 wide (depth (root_node t) + 1) = 2"
      using assms(3) by (simp add: shl1_small)
    ultimately show ?thesis
      using nth_find_boundary [OF assms(1) len i, of wide] nth_size_b [OF assms(1) i]
      by (simp add: field_simps)
  qed
  then show ?thesis
    by (simp add: is_in_iff)
qed


lemma node_geo_iff:
  "node_geo wide t node \<longleftrightarrow>
     length (center node) = DIM t \<and>
     (\<forall>i c. child node i = Some c \<longrightarrow>
        (\<exists>q. find_index t q node = i \<and> center c = find_center wide t q node) \<and>
        depth c = depth node + 1 \<and> node_geo wide t c)"
proof -
  have "list_all (\<lambda>i. case child node i of None \<Rightarrow> True
                    | Some c \<Rightarrow> (\<exists>q. find_index t q node = i \<and> center c = find_center wide t q node) \<and>
                               depth c = depth node + 1 \<and> node_geo wide t c)
        [0..<length (childs node)] \<longleftrightarrow>
     (\<forall>i c. child node i = Some c \<longrightarrow>
        (\<exists>q. find_index t q node = i \<and> center c = find_center wide t q node) \<and>
        depth c = depth node + 1 \<and> node_geo wide t c)"
    (is "?L \<longleftrightarrow> ?R")
  proof
    assume l: ?L
    show ?R
    proof (intro allI impI)
      fix i c assume c: "child node i = Some c"
      then have "i < length (childs node)"
        by (auto simp: child_def split: if_splits)
      with l have "case child node i of None \<Rightarrow> True
                    | Some c \<Rightarrow> (\<exists>q. find_index t q node = i \<and> center c = find_center wide t q node) \<and>
                               depth c = depth node + 1 \<and> node_geo wide t c"
        by (simp add: list_all_iff)
      with c show "(\<exists>q. find_index t q node = i \<and> center c = find_center wide t q node) \<and>
          depth c = depth node + 1 \<and> node_geo wide t c"
        by simp
    qed
  next
    assume ?R
    then show ?L
      by (auto simp: list_all_iff split: option.splits)
  qed
  then show ?thesis
    by (subst node_geo.simps) simp
qed

lemma node_geo_length: "node_geo wide t node \<Longrightarrow> length (center node) = DIM t"
  by (subst (asm) node_geo_iff) simp

lemma node_geo_child:
  "node_geo wide t node \<Longrightarrow> child node i = Some c \<Longrightarrow>
   (\<exists>q. find_index t q node = i \<and> center c = find_center wide t q node) \<and>
   depth c = depth node + 1 \<and> node_geo wide t c"
  by (subst (asm) node_geo_iff) blast

lemma node_geo_data:
  assumes "node_geo wide t (Node ce da j cs)"
  shows "node_geo wide t (Node ce da' j cs)"
proof -
  have "child (Node ce da' j cs) = child (Node ce da j cs)"
    by (rule ext) (rule child_Node)
  moreover have "find_index t q (Node ce da' j cs) = find_index t q (Node ce da j cs)" for q
    by (rule find_index_cong) simp
  moreover have "find_center wide t q (Node ce da' j cs) = find_center wide t q (Node ce da j cs)" for q
    by (rule find_center_cong) simp_all
  ultimately show ?thesis
    using assms by (subst node_geo_iff, subst (asm) node_geo_iff) simp
qed

lemma insert_node_same:
  "center (fst (insert_node upd wide t fuel node pos dat)) = center node \<and>
   depth (fst (insert_node upd wide t fuel node pos dat)) = depth node \<and>
   data (fst (insert_node upd wide t fuel node pos dat)) = data node"
  by (cases fuel) (simp_all add: Let_def case_prod_beta)

lemma node_geo_insert_node:
  "node_geo wide t node \<Longrightarrow> node_geo wide t (fst (insert_node upd wide t fuel node pos dat))"
proof (induction fuel arbitrary: node)
  case 0
  then show ?case by simp
next
  case (Suc fuel)
  note geo = Suc.prems
  show ?case
  proof (cases "depth node + 1 = max_depth t")
    case True
    with geo show ?thesis by simp
  next
    case False
    define index where "index = find_index t pos node"
    define c0 where "c0 = (case child node index of
                   None \<Rightarrow> Node (find_center wide t pos node) dat (depth node + 1)
                             (replicate (child_num (DIM t)) None)
                 | Some old \<Rightarrow> Node (center old) (upd (data old) dat) (depth old) (childs old))"
    define c' where "c' = fst (insert_node upd wide t fuel c0 pos dat)"
    let ?node' = "Node (center node) (data node) (depth node) ((childs node)[index := Some c'])"
    have res: "fst (insert_node upd wide t (Suc fuel) node pos dat) = ?node'"
      using False by (simp add: Let_def index_def c0_def c'_def case_prod_beta)
    have c0: "node_geo wide t c0 \<and> depth c0 = depth node + 1 \<and>
        (\<exists>q. find_index t q node = index \<and> center c0 = find_center wide t q node)"
    proof (cases "child node index")
      case None
      then have e: "c0 = Node (find_center wide t pos node) dat (depth node + 1)
                             (replicate (child_num (DIM t)) None)"
        by (simp add: c0_def)
      have "node_geo wide t c0"
        unfolding e using node_geo_length [OF geo]
        by (subst node_geo_iff) (simp add: child_Node_replicate)
      moreover have "find_index t pos node = index \<and> center c0 = find_center wide t pos node"
        by (simp add: e index_def)
      ultimately show ?thesis
        unfolding e by auto
    next
      case (Some old)
      then have e: "c0 = Node (center old) (upd (data old) dat) (depth old) (childs old)"
        by (simp add: c0_def)
      note o = node_geo_child [OF geo Some]
      then have "node_geo wide t old"
        by simp
      then have "node_geo wide t (Node (center old) (data old) (depth old) (childs old))"
        by simp
      then have "node_geo wide t c0"
        unfolding e by (rule node_geo_data)
      with o show ?thesis
        by (simp add: e)
    qed
    then have c': "node_geo wide t c'"
      unfolding c'_def by (intro Suc.IH) simp
    have same: "center c' = center c0" "depth c' = depth c0"
      unfolding c'_def using insert_node_same [of upd wide t fuel c0 pos dat] by simp_all
    have fi: "find_index t q ?node' = find_index t q node" for q
      by (rule find_index_cong) simp
    have fc: "find_center wide t q ?node' = find_center wide t q node" for q
      by (rule find_center_cong) simp_all
    have "(\<exists>q. find_index t q ?node' = i \<and> center c = find_center wide t q ?node') \<and>
        depth c = depth ?node' + 1 \<and> node_geo wide t c"
      if "child ?node' i = Some c" for i c
    proof (cases "i = index \<and> index < length (childs node)")
      case True
      with that have "c = c'"
        by (simp add: child_Node_update)
      with c' c0 same True show ?thesis
        by (simp add: fi fc)
    next
      case False
      with that have "child (Node (center node) (data node) (depth node) (childs node)) i = Some c"
        by (simp add: child_Node_update)
      then have "child node i = Some c"
        by simp
      from node_geo_child [OF geo this] show ?thesis
        by (simp add: fi fc)
    qed
    then show ?thesis
      unfolding res using node_geo_length [OF geo] by (subst node_geo_iff) simp
  qed
qed

lemma sized_insert_pos [simp]: "sized (fst (insert_pos upd wide fuel t pos dat)) = sized t"
  by (simp add: sized_def)

lemma root_insert_pos:
  "center (root_node (fst (insert_pos upd wide fuel t pos dat))) = center (root_node t) \<and>
   depth (root_node (fst (insert_pos upd wide fuel t pos dat))) = depth (root_node t)"
  using insert_node_same [of upd wide t fuel "root_node t" pos dat]
  by (simp add: insert_pos_def case_prod_beta)

lemma node_geo_root [simp]: "node_geo wide (t\<lparr>root_node := r\<rparr>) node = node_geo wide t node"
proof (induction wide t node rule: node_geo.induct)
  case (1 wide t node)
  have "node_geo wide (t\<lparr>root_node := r\<rparr>) c = node_geo wide t c" if "child node i = Some c" for i c
  proof -
    from that have "i \<in> set [0..<length (childs node)]"
      by (auto simp: child_def split: if_splits)
    then show ?thesis
      using that by (rule "1.IH")
  qed
  then show ?case
    by (subst node_geo_iff, subst (2) node_geo_iff) auto
qed

lemma reachable_geo:
  "reachable upd wide t \<Longrightarrow> sized t \<Longrightarrow>
   node_geo wide t (root_node t) \<and> center (root_node t) = center_b (boundary t) \<and>
   depth (root_node t) = 0"
proof (induction rule: reachable.induct)
  case (constructed d0 dm mn mx dep)
  then have "length (center_b \<lparr>min_pt = mn, max_pt = mx\<rparr>) = dm"
    by (simp add: sized_def Octree_def center_b_def vadd_def)
  then have "node_geo wide (Octree d0 dm mn mx dep) (root_node (Octree d0 dm mn mx dep))"
    by (subst node_geo_iff) (simp add: Octree_def child_Node_replicate)
  then show ?case
    by (simp add: Octree_def)
next
  case (inserted t fuel pos dat)
  from inserted.prems have sz: "sized t"
    by simp
  note ih = inserted.IH [OF sz]
  have "node_geo wide (fst (insert_pos upd wide fuel t pos dat))
      (root_node (fst (insert_pos upd wide fuel t pos dat)))"
    using ih node_geo_insert_node [of wide t "root_node t" upd fuel pos dat]
    by (simp add: insert_pos_def case_prod_beta)
  with ih root_insert_pos [of upd wide fuel t pos dat] show ?case
    by simp
qed

lemma node_geo_traverse:
  "node_geo wide t node \<Longrightarrow> n \<in> set (traverse node) \<Longrightarrow> node_geo wide t n"
proof (induction node rule: traverse.induct)
  case (1 node)
  from "1.prems"(2) consider "n = node" | i c where "child node i = Some c" "n \<in> set (traverse c)"
    by (subst (asm) set_traverse) blast
  then show ?case
  proof cases
    case 1
    with "1.prems"(1) show ?thesis by simp
  next
    case 2
    then have i: "i \<in> set [0..<length (childs node)]"
      by (auto simp: child_def split: if_splits)
    from node_geo_child [OF "1.prems"(1) 2(1)] have "node_geo wide t c"
      by simp
    from "1.IH" [OF i 2(1) this 2(2)] show ?thesis .
  qed
qed

lemma regions_nested:
  assumes r: "reachable upd wide t" and sz: "sized t"
    and md: "1 \<le> max_depth t" "max_depth t \<le> 30"
    and n: "n \<in> set (visual t)" and c: "child n i = Some c"
    and x: "is_in (DIM t) (find_boundary wide t c) x"
  shows "is_in (DIM t) (find_boundary wide t n) x"
proof -
  from reachable_geo [OF r sz] n have geo: "node_geo wide t n"
    unfolding visual_def by (blast intro: node_geo_traverse)
  from node_geo_child [OF geo c] obtain q where cc: "center c = find_center wide t q n"
    and cd: "depth c = depth n + 1"
    by blast
  from n have "n \<in> set (traverse (root_node t))"
    by (simp add: visual_def)
  with reachable_inv [OF r] have "\<exists>j\<ge>0. node_inv (DIM t) (max_depth t) j n"
    by (rule node_inv_traverse)
  then obtain j where j: "node_inv (DIM t) (max_depth t) j n"
    by blast
  from node_inv_child [OF j c] have "node_inv (DIM t) (max_depth t) (j + 1) c"
    by simp
  from node_inv_below [OF this] md have "j + 1 < 30"
    by simp
  with node_inv_depth [OF j] have k: "depth n < 29"
    by simp
  from sz node_geo_length [OF geo] k cc cd x show ?thesis
    by (rule child_cell_inside)
qed


lemma descent_hd: "descent t node p ! 0 = node"
  by (subst descent.simps) simp

lemma descent_nth_child:
  "Suc j < length (descent t node p) \<Longrightarrow>
   child (descent t node p ! j) (find_index t p (descent t node p ! j))
     = Some (descent t node p ! Suc j)"
proof (induction j arbitrary: node)
  case 0
  show ?case
  proof (cases "child node (find_index t p node)")
    case None
    with 0 show ?thesis
      by (simp add: descent_None)
  next
    case (Some c)
    then show ?thesis
      by (simp add: descent_Some descent_hd)
  qed
next
  case (Suc j)
  show ?case
  proof (cases "child node (find_index t p node)")
    case None
    with Suc.prems show ?thesis
      by (simp add: descent_None)
  next
    case (Some c)
    with Suc.prems have "Suc j < length (descent t c p)"
      by (simp add: descent_Some)
    from Suc.IH [OF this] Some show ?thesis
      by (simp add: descent_Some)
  qed
qed

lemma descent_regions:
  "node_geo wide t node \<Longrightarrow> sized t \<Longrightarrow> is_in (DIM t) (find_boundary wide t node) p \<Longrightarrow>
   j < length (descent t node p) \<Longrightarrow> depth node + j \<le> 29 \<Longrightarrow>
   is_in (DIM t) (find_boundary wide t (descent t node p ! j)) p"
proof (induction j arbitrary: node)
  case 0
  then show ?case
    by (simp add: descent_hd)
next
  case (Suc j)
  show ?case
  proof (cases "child node (find_index t p node)")
    case None
    with Suc.prems(4) show ?thesis
      by (simp add: descent_None)
  next
    case (Some c)
    from node_geo_child [OF Suc.prems(1) Some] obtain q
      where q: "find_index t q node = find_index t p node"
        and cq: "center c = find_center wide t q node"
        and cd: "depth c = depth node + 1" and geo: "node_geo wide t c"
      by blast
    from q have "find_center wide t q node = find_center wide t p node"
      by (rule find_center_index)
    with cq have cc: "center c = find_center wide t p node"
      by simp
    from Suc.prems(5) have k: "depth node < 29"
      by simp
    from Suc.prems(2) node_geo_length [OF Suc.prems(1)] k cc cd Suc.prems(3)
    have "is_in (DIM t) (find_boundary wide t c) p"
      by (rule child_cell_cover)
    moreover from Suc.prems(4) Some have "j < length (descent t c p)"
      by (simp add: descent_Some)
    moreover from Suc.prems(5) cd have "depth c + j \<le> 29"
      by simp
    ultimately have "is_in (DIM t) (find_boundary wide t (descent t c p ! j)) p"
      using geo Suc.prems(2) by (intro Suc.IH)
    with Some show ?thesis
      by (simp add: descent_Some)
  qed
qed

lemma region_depth_30:
  assumes "sized t" and "length (center n) = DIM t" and "depth n = 30" and "i < DIM t"
    and "0 < size_b (boundary t) ! i"
  shows "max_pt (find_boundary wide t n) ! i < min_pt (find_boundary wide t n) ! i"
    and "\<not> is_in (DIM t) (find_boundary wide t n) x"
proof -
  have "0 < size_b (boundary t) ! i / 2 ^ 31"
    using assms(5) by simp
  then show inv: "max_pt (find_boundary wide t n) ! i < min_pt (find_boundary wide t n) ! i"
    using nth_find_boundary [OF assms(1,2,4), of wide] by (simp add: assms(3) shl1_31)
  show "\<not> is_in (DIM t) (find_boundary wide t n) x"
  proof
    assume "is_in (DIM t) (find_boundary wide t n) x"
    with assms(4) have "min_pt (find_boundary wide t n) ! i \<le> x ! i"
      and "x ! i \<le> max_pt (find_boundary wide t n) ! i"
      by (simp_all add: is_in_iff)
    with inv show False
      by simp
  qed
qed

lemma deep_params:
  "DIM deep = 2" "boundary deep = \<lparr>min_pt = [0, 0], max_pt = [100, 100]\<rparr>" "max_depth deep = 31"
  by (simp_all add: deep_def quad_def Octree_def)

lemma sized_deep: "sized deep"
  by (simp add: sized_def deep_params)

lemma size_deep: "(0::rat) < size_b (boundary deep) ! 0"
  by (simp add: deep_params size_b_def vsub_def)

lemma reachable_deep: "reachable update wide0 deep"
  unfolding deep_def quad_def by (intro reachable.inserted reachable.constructed)

lemma length_descent_deep: "length (descent deep (root_node deep) [25, 25]) = 31"
proof -
  let ?t0 = "Octree (0::int) 2 [0, 0] [100, 100 :: rat] 31"
  have inb: "is_in 2 \<lparr>min_pt = [0, 0], max_pt = [100, 100 :: rat]\<rparr> [25, 25]"
    by code_simp
  have "(1::nat) \<le> 31" and "(31::nat) \<le> 31"
    by simp_all
  from insert_pos_first [OF this inb, of update wide0 0 1]
  obtain r where s: "insert_pos update wide0 31 ?t0 [25, 25] 1 = (?t0\<lparr>root_node := r\<rparr>, Done)"
    and on: "on_path wide0 ?t0 (31 - 1) r [25, 25] 1"
    by blast
  from s have d: "deep = ?t0\<lparr>root_node := r\<rparr>"
    by (simp add: deep_def quad_def)
  have "node_inv (DIM deep) (max_depth deep) 0 (root_node deep)"
    using reachable_deep by (rule reachable_inv)
  then have inv: "node_inv (DIM ?t0) (max_depth ?t0) 0 r"
    unfolding d by simp
  have "0 + (31 - 1) + 1 = max_depth ?t0"
    by (simp add: Octree_def)
  with inv have "descent ?t0 r [25, 25] = descent ?t0 r [25, 25] \<and>
         map data (descent ?t0 r [25, 25]) = data r # replicate (31 - 1) 1"
    using on by (rule descent_on_path) simp
  then have "length (map data (descent ?t0 r [25, 25])) = 31"
    by simp
  then show ?thesis
    unfolding d by simp
qed

lemma deep_nodes:
  assumes "k < 31"
  shows "find_pos_depth deep [25, 25] k = descent deep (root_node deep) [25, 25] ! k"
    and "depth (find_pos_depth deep [25, 25] k) = k"
    and "node_geo wide0 deep (find_pos_depth deep [25, 25] k)"
proof -
  have inv: "node_inv (DIM deep) (max_depth deep) 0 (root_node deep)"
    using reachable_deep by (rule reachable_inv)
  have "find_node deep (root_node deep) [25, 25] k =
     (if k - 0 < length (descent deep (root_node deep) [25, 25])
      then descent deep (root_node deep) [25, 25] ! (k - 0)
      else last (descent deep (root_node deep) [25, 25]))"
    using inv by (rule find_node_descent) simp
  with assms show f: "find_pos_depth deep [25, 25] k = descent deep (root_node deep) [25, 25] ! k"
    by (simp add: find_pos_depth_def length_descent_deep)
  have "depth (descent deep (root_node deep) [25, 25] ! k) = 0 + k"
    using inv by (rule depth_descent) (use assms in \<open>simp add: length_descent_deep\<close>)
  with f show "depth (find_pos_depth deep [25, 25] k) = k"
    by simp
  have "find_pos_depth deep [25, 25] k \<in> set (traverse (root_node deep))"
    unfolding find_pos_depth_def by (rule find_node_in_traverse)
  with reachable_geo [OF reachable_deep sized_deep]
  show "node_geo wide0 deep (find_pos_depth deep [25, 25] k)"
    by (blast intro: node_geo_traverse)
qed

text \<open>
  Claim C8 at a node of depth 30. In the tree \<open>deep\<close> the node that \<^verbatim>\<open>find((25, 25), 30)\<close>
  returns has depth 30, so \<^verbatim>\<open>find_boundary\<close> divides by \<^verbatim>\<open>1 << 31\<close>, which is negative: the
  region it returns has the minimum and the maximum of the specified region exchanged, its
  maximum lies below its minimum, and it is not the specified region. For nodes of depth
  below 30 the two agree (\<open>find_boundary_in_range\<close>).
\<close>

theorem find_boundary_overflow:
  "find_pos_depth deep [25, 25] 30 \<in> set (visual deep) \<and>
   depth (find_pos_depth deep [25, 25] 30) = 30 \<and>
   find_boundary wide0 deep (find_pos_depth deep [25, 25] 30)
     = \<lparr>min_pt = max_pt (region_spec deep (find_pos_depth deep [25, 25] 30)),
        max_pt = min_pt (region_spec deep (find_pos_depth deep [25, 25] 30))\<rparr> \<and>
   max_pt (find_boundary wide0 deep (find_pos_depth deep [25, 25] 30)) ! 0
     < min_pt (find_boundary wide0 deep (find_pos_depth deep [25, 25] 30)) ! 0 \<and>
   find_boundary wide0 deep (find_pos_depth deep [25, 25] 30)
     \<noteq> region_spec deep (find_pos_depth deep [25, 25] 30)"
proof -
  let ?n = "find_pos_depth deep [25, 25] 30"
  have k: "(30::nat) < 31"
    by simp
  have a: "?n \<in> set (visual deep)"
    unfolding find_pos_depth_def visual_def by (rule find_node_in_traverse)
  note b = deep_nodes(2) [OF k]
  have c: "find_boundary wide0 deep ?n
     = \<lparr>min_pt = max_pt (region_spec deep ?n), max_pt = min_pt (region_spec deep ?n)\<rparr>"
    using b by (rule find_boundary_depth_30)
  have len: "length (center ?n) = DIM deep"
    using deep_nodes(3) [OF k] by (rule node_geo_length)
  have i: "0 < DIM deep"
    by (simp add: deep_params)
  have d: "max_pt (find_boundary wide0 deep ?n) ! 0 < min_pt (find_boundary wide0 deep ?n) ! 0"
    using sized_deep len b i size_deep by (rule region_depth_30(1))
  have e: "find_boundary wide0 deep ?n \<noteq> region_spec deep ?n"
  proof
    assume "find_boundary wide0 deep ?n = region_spec deep ?n"
    with c have "min_pt (find_boundary wide0 deep ?n) = max_pt (find_boundary wide0 deep ?n)"
      by (metis boundary.select_convs(1))
    with d show False
      by simp
  qed
  from a b c d e show ?thesis
    by (intro conjI)
qed

text \<open>
  Claim C7 at a node of depth 29 of the same tree. The position \<open>(25, 25)\<close> lies in the
  region of that node, and \<^verbatim>\<open>insert\<close> has put it into the child that \<^verbatim>\<open>find((25, 25), 30)\<close>
  returns; but the region of that child does not contain it, and the region of a child of
  that node contains no point at all, whichever quadrant it is in: the child regions do not
  tile the region of the node. In trees with a depth limit of at most 30 the regions are
  nested (\<open>regions_nested\<close>), and below depth 29 the cells of a node cover its region and
  meet only on the centre planes (\<open>child_cell_cover\<close>, \<open>child_cells_meet\<close>).
\<close>

theorem child_regions_overflow:
  "find_pos_depth deep [25, 25] 29 \<in> set (visual deep) \<and>
   depth (find_pos_depth deep [25, 25] 29) = 29 \<and>
   child (find_pos_depth deep [25, 25] 29) (find_index deep [25, 25] (find_pos_depth deep [25, 25] 29))
     = Some (find_pos_depth deep [25, 25] 30) \<and>
   is_in 2 (find_boundary wide0 deep (find_pos_depth deep [25, 25] 29)) [25, 25] \<and>
   \<not> is_in 2 (find_boundary wide0 deep (find_pos_depth deep [25, 25] 30)) [25, 25] \<and>
   (\<forall>q x. \<not> is_in 2 (find_boundary wide0 deep
              (Node (find_center wide0 deep q (find_pos_depth deep [25, 25] 29)) 0 30 [])) x)"
proof -
  let ?m = "find_pos_depth deep [25, 25] 29" and ?n = "find_pos_depth deep [25, 25] 30"
  let ?p = "descent deep (root_node deep) [25, 25]"
  have k29: "(29::nat) < 31" and k30: "(30::nat) < 31"
    by simp_all
  have a: "?m \<in> set (visual deep)"
    unfolding find_pos_depth_def visual_def by (rule find_node_in_traverse)
  note b = deep_nodes(2) [OF k29]
  have "child (?p ! 29) (find_index deep [25, 25] (?p ! 29)) = Some (?p ! Suc 29)"
    by (rule descent_nth_child) (simp add: length_descent_deep)
  then have c: "child ?m (find_index deep [25, 25] ?m) = Some ?n"
    by (simp add: deep_nodes(1) [OF k29] deep_nodes(1) [OF k30])
  note g = reachable_geo [OF reachable_deep sized_deep]
  have "is_in (DIM deep) (boundary deep) [25, 25]"
    unfolding deep_params by code_simp
  with g have "is_in (DIM deep) (find_boundary wide0 deep (root_node deep)) [25, 25]"
    by (simp add: root_region [OF sized_deep])
  with g have "is_in (DIM deep) (find_boundary wide0 deep (?p ! 29)) [25, 25]"
    by (intro descent_regions) (simp_all add: sized_deep length_descent_deep)
  then have d: "is_in 2 (find_boundary wide0 deep ?m) [25, 25]"
    by (simp add: deep_nodes(1) [OF k29] deep_params)
  have i: "0 < DIM deep"
    by (simp add: deep_params)
  have len: "length (center ?n) = DIM deep"
    using deep_nodes(3) [OF k30] by (rule node_geo_length)
  have "\<not> is_in (DIM deep) (find_boundary wide0 deep ?n) [25, 25]"
    using sized_deep len deep_nodes(2) [OF k30] i size_deep by (rule region_depth_30(2))
  then have e: "\<not> is_in 2 (find_boundary wide0 deep ?n) [25, 25]"
    by (simp add: deep_params)
  have lm: "length (center ?m) = DIM deep"
    using deep_nodes(3) [OF k29] by (rule node_geo_length)
  have f: "\<not> is_in 2 (find_boundary wide0 deep (Node (find_center wide0 deep q ?m) 0 30 [])) x" for q x
  proof -
    have "\<not> is_in (DIM deep) (find_boundary wide0 deep (Node (find_center wide0 deep q ?m) 0 30 [])) x"
      using sized_deep _ _ i size_deep by (rule region_depth_30(2)) (simp_all add: lm)
    then show ?thesis
      by (simp add: deep_params)
  qed
  from a b c d e f show ?thesis
    by (intro conjI allI)
qed

section \<open>Ties on a centre plane\<close>

text \<open>
  A position with \<^verbatim>\<open>pos[i] == node->center[i]\<close> gets bit \<open>i\<close> unset, and \<^verbatim>\<open>find_center\<close>
  then takes the branch that subtracts the offset. At a node of depth below 29 the offset is
  positive and the child of that slot lies on the lower side of the centre plane. At a node
  of depth 29 the offset is divided by \<^verbatim>\<open>1 << 31\<close>, which is negative, and the child lies on
  the upper side.
\<close>

lemma tie_child_below:
  assumes "sized t" and "length (center node) = DIM t" and "i < DIM t"
    and "depth node < 29" and "pos ! i = center node ! i" and "0 < size_b (boundary t) ! i"
  shows "\<not> bit (find_index t pos node) i"
    and "find_center wide t pos node ! i
           = center node ! i - size_b (boundary t) ! i / 2 ^ (depth node + 2)"
    and "find_center wide t pos node ! i < center node ! i"
proof -
  show "\<not> bit (find_index t pos node) i"
    using assms(5) by (simp add: bit_find_index)
  have "depth node + 2 < 31"
    using assms(4) by simp
  then have "shl1 wide (depth node + 2) = 2 ^ (depth node + 2)"
    by (rule shl1_small)
  with nth_find_center [OF assms(1-3), of wide pos] assms(5)
  show e: "find_center wide t pos node ! i
           = center node ! i - size_b (boundary t) ! i / 2 ^ (depth node + 2)"
    by simp
  have "0 < size_b (boundary t) ! i / 2 ^ (depth node + 2)"
    using assms(6) by simp
  with e show "find_center wide t pos node ! i < center node ! i"
    by simp
qed

lemma tie_child_depth_29:
  assumes "sized t" and "length (center node) = DIM t" and "i < DIM t"
    and "depth node = 29" and "pos ! i = center node ! i" and "0 < size_b (boundary t) ! i"
  shows "\<not> bit (find_index t pos node) i"
    and "find_center wide t pos node ! i = center node ! i + size_b (boundary t) ! i / 2 ^ 31"
    and "center node ! i < find_center wide t pos node ! i"
proof -
  show "\<not> bit (find_index t pos node) i"
    using assms(5) by (simp add: bit_find_index)
  from nth_find_center [OF assms(1-3), of wide pos] assms(5)
  show e: "find_center wide t pos node ! i = center node ! i + size_b (boundary t) ! i / 2 ^ 31"
    by (simp add: assms(4) shl1_31)
  have "0 < size_b (boundary t) ! i / 2 ^ 31"
    using assms(6) by simp
  with e show "center node ! i < find_center wide t pos node ! i"
    by simp
qed

lemma list2_eq: "length xs = 2 \<Longrightarrow> xs ! 0 = a \<Longrightarrow> xs ! 1 = b \<Longrightarrow> xs = [a, b]"
  by (cases xs; cases "tl xs") auto

lemma tie_pos_nth: "i < 2 \<Longrightarrow> tie_pos ! i = 100 / 2 ^ 30"
  by (auto simp: tie_pos_def less_Suc_eq numeral_2_eq_2)

lemma corner_step:
  fixes t :: "(rat, 'd) octree"
  assumes sz: "sized t" and dm: "DIM t = 2"
    and bd: "boundary t = \<lparr>min_pt = [0, 0], max_pt = [100, 100]\<rparr>"
    and ce: "center node = [100 / 2 ^ (depth node + 1), 100 / 2 ^ (depth node + 1)]"
    and k: "depth node < 29"
  shows "find_center wide t tie_pos node = [100 / 2 ^ (depth node + 2), 100 / 2 ^ (depth node + 2)]"
proof -
  have len: "length (center node) = DIM t"
    by (simp add: ce dm)
  have sh: "shl1 wide (depth node + 2) = 2 ^ (depth node + 2)"
    using k by (intro shl1_small) simp
  have el: "find_center wide t tie_pos node ! i = 100 / 2 ^ (depth node + 2)" if i: "i < 2" for i
  proof -
    have i': "i < DIM t"
      using i dm by simp
    have "(2::rat) ^ (depth node + 1) \<le> 2 ^ 30"
      using k by (intro power_increasing) simp_all
    then have "(100::rat) / 2 ^ 30 \<le> 100 / 2 ^ (depth node + 1)"
      by (intro divide_left_mono) simp_all
    moreover have "center node ! i = 100 / 2 ^ (depth node + 1)"
      using i by (auto simp: ce less_Suc_eq numeral_2_eq_2)
    ultimately have le: "\<not> tie_pos ! i > center node ! i"
      using i by (simp add: tie_pos_nth)
    have s: "size_b (boundary t) ! i = 100"
      using i by (auto simp: bd size_b_def vsub_def less_Suc_eq numeral_2_eq_2)
    have "find_center wide t tie_pos node ! i
        = center node ! i - size_b (boundary t) ! i / of_int (shl1 wide (depth node + 2))"
      using nth_find_center [OF sz len i', of wide tie_pos] le by simp
    also have "\<dots> = center node ! i - 100 / 2 ^ (depth node + 2)"
      by (simp only: sh s of_int_power of_int_numeral)
    also have "center node ! i = 100 / 2 ^ (depth node + 1)"
      by fact
    also have "(100::rat) / 2 ^ (depth node + 1) - 100 / 2 ^ (depth node + 2) = 100 / 2 ^ (depth node + 2)"
      by (simp add: field_simps)
    finally show ?thesis .
  qed
  show ?thesis
    by (rule list2_eq) (simp_all add: el ce)
qed

lemma corner_centers:
  fixes t :: "(rat, 'd) octree"
  assumes sz: "sized t" and dm: "DIM t = 2"
    and bd: "boundary t = \<lparr>min_pt = [0, 0], max_pt = [100, 100]\<rparr>"
  shows "node_geo wide t node \<Longrightarrow>
     center node = [100 / 2 ^ (depth node + 1), 100 / 2 ^ (depth node + 1)] \<Longrightarrow>
     j < length (descent t node tie_pos) \<Longrightarrow> depth node + j \<le> 29 \<Longrightarrow>
     center (descent t node tie_pos ! j)
       = [100 / 2 ^ (depth node + j + 1), 100 / 2 ^ (depth node + j + 1)]"
proof (induction j arbitrary: node)
  case 0
  then show ?case
    by (simp add: descent_hd)
next
  case (Suc j)
  show ?case
  proof (cases "child node (find_index t tie_pos node)")
    case None
    with Suc.prems(3) show ?thesis
      by (simp add: descent_None)
  next
    case (Some c)
    from node_geo_child [OF Suc.prems(1) Some] obtain q
      where q: "find_index t q node = find_index t tie_pos node"
        and cq: "center c = find_center wide t q node"
        and cd: "depth c = depth node + 1" and geo: "node_geo wide t c"
      by blast
    from q have "find_center wide t q node = find_center wide t tie_pos node"
      by (rule find_center_index)
    with cq have cc: "center c = find_center wide t tie_pos node"
      by simp
    from Suc.prems(4) have k: "depth node < 29"
      by simp
    from sz dm bd Suc.prems(2) k
    have "find_center wide t tie_pos node
        = [100 / 2 ^ (depth node + 2), 100 / 2 ^ (depth node + 2)]"
      by (rule corner_step)
    with cc cd have c1: "center c = [100 / 2 ^ (depth c + 1), 100 / 2 ^ (depth c + 1)]"
      by simp
    from Suc.prems(3) Some have c2: "j < length (descent t c tie_pos)"
      by (simp add: descent_Some)
    from Suc.prems(4) cd have c3: "depth c + j \<le> 29"
      by simp
    from geo c1 c2 c3 have "center (descent t c tie_pos ! j)
       = [100 / 2 ^ (depth c + j + 1), 100 / 2 ^ (depth c + j + 1)]"
      by (rule Suc.IH)
    with Some cd show ?thesis
      by (simp add: descent_Some)
  qed
qed

lemma tied_params:
  "DIM tied = 2" "boundary tied = \<lparr>min_pt = [0, 0], max_pt = [100, 100]\<rparr>" "max_depth tied = 31"
  by (simp_all add: tied_def quad_def Octree_def)

lemma sized_tied: "sized tied"
  by (simp add: sized_def tied_params)

lemma size_tied: "(0::rat) < size_b (boundary tied) ! 0"
  by (simp add: tied_params size_b_def vsub_def)

lemma reachable_tied: "reachable update wide0 tied"
  unfolding tied_def quad_def by (intro reachable.inserted reachable.constructed)

lemma length_descent_tied: "length (descent tied (root_node tied) tie_pos) = 31"
proof -
  let ?t0 = "Octree (0::int) 2 [0, 0] [100, 100 :: rat] 31"
  have inb: "is_in 2 \<lparr>min_pt = [0, 0], max_pt = [100, 100 :: rat]\<rparr> tie_pos"
    unfolding tie_pos_def by code_simp
  have "(1::nat) \<le> 31" and "(31::nat) \<le> 31"
    by simp_all
  from insert_pos_first [OF this inb, of update wide0 0 1]
  obtain r where s: "insert_pos update wide0 31 ?t0 tie_pos 1 = (?t0\<lparr>root_node := r\<rparr>, Done)"
    and on: "on_path wide0 ?t0 (31 - 1) r tie_pos 1"
    by blast
  from s have d: "tied = ?t0\<lparr>root_node := r\<rparr>"
    by (simp add: tied_def quad_def)
  have "node_inv (DIM tied) (max_depth tied) 0 (root_node tied)"
    using reachable_tied by (rule reachable_inv)
  then have inv: "node_inv (DIM ?t0) (max_depth ?t0) 0 r"
    unfolding d by simp
  have "0 + (31 - 1) + 1 = max_depth ?t0"
    by (simp add: Octree_def)
  with inv have "descent ?t0 r tie_pos = descent ?t0 r tie_pos \<and>
         map data (descent ?t0 r tie_pos) = data r # replicate (31 - 1) 1"
    using on by (rule descent_on_path) simp
  then have "length (map data (descent ?t0 r tie_pos)) = 31"
    by simp
  then show ?thesis
    unfolding d by simp
qed

lemma tied_nodes:
  assumes "k < 31"
  shows "find_pos_depth tied tie_pos k = descent tied (root_node tied) tie_pos ! k"
    and "depth (find_pos_depth tied tie_pos k) = k"
    and "node_geo wide0 tied (find_pos_depth tied tie_pos k)"
proof -
  have inv: "node_inv (DIM tied) (max_depth tied) 0 (root_node tied)"
    using reachable_tied by (rule reachable_inv)
  have "find_node tied (root_node tied) tie_pos k =
     (if k - 0 < length (descent tied (root_node tied) tie_pos)
      then descent tied (root_node tied) tie_pos ! (k - 0)
      else last (descent tied (root_node tied) tie_pos))"
    using inv by (rule find_node_descent) simp
  with assms show f: "find_pos_depth tied tie_pos k = descent tied (root_node tied) tie_pos ! k"
    by (simp add: find_pos_depth_def length_descent_tied)
  have "depth (descent tied (root_node tied) tie_pos ! k) = 0 + k"
    using inv by (rule depth_descent) (use assms in \<open>simp add: length_descent_tied\<close>)
  with f show "depth (find_pos_depth tied tie_pos k) = k"
    by simp
  have "find_pos_depth tied tie_pos k \<in> set (traverse (root_node tied))"
    unfolding find_pos_depth_def by (rule find_node_in_traverse)
  with reachable_geo [OF reachable_tied sized_tied]
  show "node_geo wide0 tied (find_pos_depth tied tie_pos k)"
    by (blast intro: node_geo_traverse)
qed

lemma tied_center_29: "center (find_pos_depth tied tie_pos 29) = tie_pos"
proof -
  note g = reachable_geo [OF reachable_tied sized_tied]
  have "center (root_node tied) = [100 / 2 ^ (depth (root_node tied) + 1), 100 / 2 ^ (depth (root_node tied) + 1)]"
    using g by (simp add: tied_params center_b_def vadd_def vdiv_def)
  moreover have "29 < length (descent tied (root_node tied) tie_pos)"
    by (simp add: length_descent_tied)
  moreover have "depth (root_node tied) + 29 \<le> 29"
    using g by simp
  ultimately have "center (descent tied (root_node tied) tie_pos ! 29)
       = [100 / 2 ^ (depth (root_node tied) + 29 + 1), 100 / 2 ^ (depth (root_node tied) + 29 + 1)]"
    using g by (intro corner_centers [OF sized_tied tied_params(1,2), where wide = wide0]) simp_all
  then have "center (descent tied (root_node tied) tie_pos ! 29) = tie_pos"
    using g by (simp add: tie_pos_def)
  moreover have "(29::nat) < 31"
    by simp
  ultimately show ?thesis
    by (simp only: tied_nodes(1))
qed

text \<open>
  Claim C5 at a node of depth 29. In the tree \<open>tied\<close> the inserted position lies on the
  centre plane of the node of depth 29 on its path. Its index there is below \<open>2 ^ DIM\<close>
  and has bit 0 unset, and \<^verbatim>\<open>insert\<close> has put the position into the child of that slot,
  the node that \<^verbatim>\<open>find\<close> returns for depth 30. The centre of that child is the one that
  \<^verbatim>\<open>find_center\<close> computes, and on axis 0 it lies above the centre of the node: the tie is
  routed to a child in the upper half, not to the lower-half child. At nodes of depth below
  29 the child of a tie lies below the centre (\<open>tie_child_below\<close>).
\<close>

theorem tie_child_overflow:
  "find_pos_depth tied tie_pos 29 \<in> set (visual tied) \<and>
   depth (find_pos_depth tied tie_pos 29) = 29 \<and>
   tie_pos ! 0 = center (find_pos_depth tied tie_pos 29) ! 0 \<and>
   find_index tied tie_pos (find_pos_depth tied tie_pos 29) < 2 ^ DIM tied \<and>
   \<not> bit (find_index tied tie_pos (find_pos_depth tied tie_pos 29)) 0 \<and>
   child (find_pos_depth tied tie_pos 29) (find_index tied tie_pos (find_pos_depth tied tie_pos 29))
     = Some (find_pos_depth tied tie_pos 30) \<and>
   center (find_pos_depth tied tie_pos 30) = find_center wide0 tied tie_pos (find_pos_depth tied tie_pos 29) \<and>
   center (find_pos_depth tied tie_pos 29) ! 0 < center (find_pos_depth tied tie_pos 30) ! 0"
proof -
  let ?m = "find_pos_depth tied tie_pos 29" and ?n = "find_pos_depth tied tie_pos 30"
  let ?p = "descent tied (root_node tied) tie_pos"
  have k29: "(29::nat) < 31" and k30: "(30::nat) < 31"
    by simp_all
  have a: "?m \<in> set (visual tied)"
    unfolding find_pos_depth_def visual_def by (rule find_node_in_traverse)
  note b = tied_nodes(2) [OF k29]
  have c: "tie_pos ! 0 = center ?m ! 0"
    by (simp add: tied_center_29)
  have d: "find_index tied tie_pos ?m < 2 ^ DIM tied"
    by (rule find_index_less)
  have i: "0 < DIM tied"
    by (simp add: tied_params)
  have lm: "length (center ?m) = DIM tied"
    using tied_nodes(3) [OF k29] by (rule node_geo_length)
  note e = tie_child_depth_29(1) [OF sized_tied lm i b c size_tied]
  note tie = tie_child_depth_29(3) [OF sized_tied lm i b c size_tied, where wide = wide0]
  have "child (?p ! 29) (find_index tied tie_pos (?p ! 29)) = Some (?p ! Suc 29)"
    by (rule descent_nth_child) (simp add: length_descent_tied)
  then have f: "child ?m (find_index tied tie_pos ?m) = Some ?n"
    by (simp add: tied_nodes(1) [OF k29] tied_nodes(1) [OF k30])
  from node_geo_child [OF tied_nodes(3) [OF k29] f] obtain q
    where q: "find_index tied q ?m = find_index tied tie_pos ?m"
      and cq: "center ?n = find_center wide0 tied q ?m"
    by blast
  from q have "find_center wide0 tied q ?m = find_center wide0 tied tie_pos ?m"
    by (rule find_center_index)
  with cq have g: "center ?n = find_center wide0 tied tie_pos ?m"
    by simp
  from tie g have h: "center ?m ! 0 < center ?n ! 0"
    by simp
  from a b c d e f g h show ?thesis
    by (intro conjI)
qed

end
